theory Spec2Isabelle
  imports Main "HOL-Library.AList"
begin

section \<open>JavaScript numbers and the Date built-in\<close>

text \<open>
  The scheduler is TypeScript; its calculator is written against the \<open>Date\<close> built-in.
  A JavaScript number that the code computes with is an integer or \<open>NaN\<close>; a \<open>Date\<close>
  object is its time value (milliseconds since 1970-01-01T00:00Z), \<open>NaN\<close> for an
  \<open>Invalid Date\<close>. The functions below follow the abstract operations of ECMA-262
  (section "Date Objects") by name. Two things are fixed and not modelled further:
  the process's local time zone has offset zero (\<open>LocalTime\<close> and \<open>UTC\<close> are the
  identity, no daylight saving), and \<open>TimeClip\<close> (the range limit of 8.64e15 ms) is
  the identity, the arithmetic on time values being exact. The one number that the
  program lets grow without limit, the execution count of a record, is incremented as
  a double is (\<open>js_plus_one\<close> below).
\<close>

datatype jsnum = NaN | Num int

type_synonym jsdate = jsnum

definition msPerDay :: int where "msPerDay = 86400000"
definition msPerHour :: int where "msPerHour = 3600000"
definition msPerMinute :: int where "msPerMinute = 60000"
definition msPerSecond :: int where "msPerSecond = 1000"

definition Day :: "int \<Rightarrow> int" where
  "Day t = t div msPerDay"

definition TimeWithinDay :: "int \<Rightarrow> int" where
  "TimeWithinDay t = t mod msPerDay"

definition DayFromYear :: "int \<Rightarrow> int" where
  "DayFromYear y =
     365 * (y - 1970) + (y - 1969) div 4 - (y - 1901) div 100 + (y - 1601) div 400"

definition DaysInYear :: "int \<Rightarrow> int" where
  "DaysInYear y =
     (if y mod 4 \<noteq> 0 then 365
      else if y mod 100 \<noteq> 0 then 366
      else if y mod 400 \<noteq> 0 then 365
      else 366)"

definition InLeapYearOf :: "int \<Rightarrow> int" where
  "InLeapYearOf y = (if DaysInYear y = 366 then 1 else 0)"

text \<open>
  \<open>YearFromTime t\<close> is the largest year \<open>y\<close> with \<open>DayFromYear y \<le> Day t\<close>. It is
  computed by counting up from an estimate that is never too large.
\<close>

definition yearEstimate :: "int \<Rightarrow> int" where
  "yearEstimate d = (if 0 \<le> d then 1970 + d div 366 else 1970 + d div 365 - 1)"

lemma DayFromYear_step: "DayFromYear y + 364 \<le> DayFromYear (y + 1)"
proof -
  define a where "a = (y - 1969) div 4"
  define a' where "a' = (y + 1 - 1969) div 4"
  define b where "b = (y - 1901) div 100"
  define b' where "b' = (y + 1 - 1901) div 100"
  define c where "c = (y - 1601) div 400"
  define c' where "c' = (y + 1 - 1601) div 400"
  have "a \<le> a'" unfolding a_def a'_def by (rule zdiv_mono1) simp_all
  moreover have "c \<le> c'" unfolding c_def c'_def by (rule zdiv_mono1) simp_all
  moreover have "b' \<le> b + 1"
  proof -
    have "(y - 1901 + 100) div 100 = (y - 1901) div 100 + 1" by simp
    moreover have "(y + 1 - 1901) div 100 \<le> (y - 1901 + 100) div 100"
      by (rule zdiv_mono1) simp_all
    ultimately show ?thesis unfolding b_def b'_def by simp
  qed
  moreover have "DayFromYear y = 365 * (y - 1970) + a - b + c"
    unfolding DayFromYear_def a_def b_def c_def by (rule refl)
  moreover have "DayFromYear (y + 1) = 365 * (y + 1 - 1970) + a' - b' + c'"
    unfolding DayFromYear_def a'_def b'_def c'_def by (rule refl)
  ultimately show ?thesis by simp
qed

function yearSearch :: "int \<Rightarrow> int \<Rightarrow> int" where
  "yearSearch d y = (if DayFromYear (y + 1) \<le> d then yearSearch d (y + 1) else y)"
  by pat_completeness auto
termination
proof (relation "measure (\<lambda>(d, y). nat (d + 1 - DayFromYear (y + 1)))")
  show "wf (measure (\<lambda>(d, y). nat (d + 1 - DayFromYear (y + 1))))"
    by simp
next
  fix d y :: int
  assume le: "DayFromYear (y + 1) \<le> d"
  have "DayFromYear (y + 1) < DayFromYear (y + 1 + 1)"
    using DayFromYear_step [of "y + 1"] by simp
  with le show "((d, y + 1), (d, y)) \<in> measure (\<lambda>(d, y). nat (d + 1 - DayFromYear (y + 1)))"
    by simp
qed

declare yearSearch.simps [simp del]

definition YearFromTime :: "int \<Rightarrow> int" where
  "YearFromTime t = yearSearch (Day t) (yearEstimate (Day t))"

definition DayWithinYear :: "int \<Rightarrow> int" where
  "DayWithinYear t = Day t - DayFromYear (YearFromTime t)"

definition InLeapYear :: "int \<Rightarrow> int" where
  "InLeapYear t = InLeapYearOf (YearFromTime t)"

text \<open>The day number within the year on which month \<open>m\<close> (0 = January) starts.\<close>

definition monthStart :: "int \<Rightarrow> int \<Rightarrow> int" where
  "monthStart m leap =
     (if m = 0 then 0
      else if m = 1 then 31
      else if m = 2 then 59 + leap
      else if m = 3 then 90 + leap
      else if m = 4 then 120 + leap
      else if m = 5 then 151 + leap
      else if m = 6 then 181 + leap
      else if m = 7 then 212 + leap
      else if m = 8 then 243 + leap
      else if m = 9 then 273 + leap
      else if m = 10 then 304 + leap
      else 334 + leap)"

definition MonthFromTime :: "int \<Rightarrow> int" where
  "MonthFromTime t =
     (let d = DayWithinYear t; leap = InLeapYear t in
      if d < 31 then 0
      else if d < 59 + leap then 1
      else if d < 90 + leap then 2
      else if d < 120 + leap then 3
      else if d < 151 + leap then 4
      else if d < 181 + leap then 5
      else if d < 212 + leap then 6
      else if d < 243 + leap then 7
      else if d < 273 + leap then 8
      else if d < 304 + leap then 9
      else if d < 334 + leap then 10
      else 11)"

definition DateFromTime :: "int \<Rightarrow> int" where
  "DateFromTime t = DayWithinYear t - monthStart (MonthFromTime t) (InLeapYear t) + 1"

definition WeekDay :: "int \<Rightarrow> int" where
  "WeekDay t = (Day t + 4) mod 7"

definition MakeTime :: "int \<Rightarrow> int \<Rightarrow> int \<Rightarrow> int \<Rightarrow> int" where
  "MakeTime hour minute sec ms =
     hour * msPerHour + minute * msPerMinute + sec * msPerSecond + ms"

definition MakeDay :: "int \<Rightarrow> int \<Rightarrow> int \<Rightarrow> int" where
  "MakeDay year month date =
     (let ym = year + month div 12; mn = month mod 12 in
      DayFromYear ym + monthStart mn (InLeapYearOf ym) + date - 1)"

definition MakeDate :: "int \<Rightarrow> int \<Rightarrow> int" where
  "MakeDate day time = day * msPerDay + time"

subsection \<open>The methods of \<open>Date\<close> that the calculator calls\<close>

fun getDay :: "jsdate \<Rightarrow> jsnum" where
  "getDay NaN = NaN"
| "getDay (Num t) = Num (WeekDay t)"

fun getDate :: "jsdate \<Rightarrow> jsnum" where
  "getDate NaN = NaN"
| "getDate (Num t) = Num (DateFromTime t)"

fun getMonth :: "jsdate \<Rightarrow> jsnum" where
  "getMonth NaN = NaN"
| "getMonth (Num t) = Num (MonthFromTime t)"

fun getFullYear :: "jsdate \<Rightarrow> jsnum" where
  "getFullYear NaN = NaN"
| "getFullYear (Num t) = Num (YearFromTime t)"

text \<open>\<open>d.setHours(hour, min, sec, ms)\<close>: the new time value of \<open>d\<close>.\<close>

fun setHours :: "jsdate \<Rightarrow> jsnum \<Rightarrow> jsnum \<Rightarrow> jsnum \<Rightarrow> jsnum \<Rightarrow> jsdate" where
  "setHours (Num t) (Num h) (Num m) (Num s) (Num milli) =
     Num (MakeDate (Day t) (MakeTime h m s milli))"
| "setHours _ _ _ _ _ = NaN"

text \<open>\<open>d.setDate(date)\<close>: the new time value of \<open>d\<close>.\<close>

fun setDate :: "jsdate \<Rightarrow> jsnum \<Rightarrow> jsdate" where
  "setDate (Num t) (Num dt) =
     Num (MakeDate (MakeDay (YearFromTime t) (MonthFromTime t) dt) (TimeWithinDay t))"
| "setDate _ _ = NaN"

text \<open>
  \<open>new Date(year, month, date)\<close>, the remaining arguments absent (zero): a year from
  0 to 99 stands for 1900 + year.
\<close>

fun newDate :: "jsnum \<Rightarrow> jsnum \<Rightarrow> jsnum \<Rightarrow> jsdate" where
  "newDate (Num y) (Num m) (Num dt) =
     (let yr = (if 0 \<le> y \<and> y \<le> 99 then 1900 + y else y) in
      Num (MakeDate (MakeDay yr m dt) (MakeTime 0 0 0 0)))"
| "newDate _ _ _ = NaN"

text \<open>Arithmetic and comparison of numbers: \<open>NaN\<close> propagates and compares false.\<close>

fun js_add :: "jsnum \<Rightarrow> jsnum \<Rightarrow> jsnum" where
  "js_add (Num a) (Num b) = Num (a + b)"
| "js_add _ _ = NaN"

fun js_sub :: "jsnum \<Rightarrow> jsnum \<Rightarrow> jsnum" where
  "js_sub (Num a) (Num b) = Num (a - b)"
| "js_sub _ _ = NaN"

fun js_le :: "jsnum \<Rightarrow> jsnum \<Rightarrow> bool" where
  "js_le (Num a) (Num b) = (a \<le> b)"
| "js_le _ _ = False"

fun js_lt :: "jsnum \<Rightarrow> jsnum \<Rightarrow> bool" where
  "js_lt (Num a) (Num b) = (a < b)"
| "js_lt _ _ = False"

text \<open>Strict equality \<open>===\<close> of two numbers: \<open>NaN\<close> equals nothing, itself included.\<close>

fun js_eq :: "jsnum \<Rightarrow> jsnum \<Rightarrow> bool" where
  "js_eq (Num a) (Num b) = (a = b)"
| "js_eq _ _ = False"

text \<open>
  \<open>n + 1\<close> on the doubles, for an integer \<open>n\<close> that is a double. The sum is exact
  while it is at most 2^53 in magnitude. Beyond, \<open>n\<close> is even and the odd sum is not
  a double: up to 2^54 it lies midway between \<open>n\<close> and \<open>n + 2\<close>, and rounding to
  nearest, ties to even, gives the one of the two that is a multiple of 4; from 2^54 on
  \<open>n\<close> is a multiple of 4 and is itself the nearest double. So
  \<open>9007199254740992 + 1\<close> is \<open>9007199254740992\<close> and \<open>9007199254740994 + 1\<close> is
  \<open>9007199254740996\<close>.
\<close>

definition js_plus_one :: "int \<Rightarrow> int" where
  "js_plus_one n =
     (let m = n + 1 in
      if \<bar>m\<bar> \<le> 2 ^ 53 then m
      else if (m - 1) mod 4 = 0 then m - 1
      else m + 1)"

section \<open>Strings: \<open>split\<close>, \<open>Number\<close>, \<open>toLowerCase\<close>, \<open>indexOf\<close>\<close>

text \<open>\<open>s.split(sep)\<close> for a separator of one character; \<open>"".split(":")\<close> is \<open>[""]\<close>.\<close>

fun split_str :: "char \<Rightarrow> string \<Rightarrow> string list" where
  "split_str sep [] = [[]]"
| "split_str sep (c # cs) =
     (if c = sep then [] # split_str sep cs
      else (case split_str sep cs of
              [] \<Rightarrow> [[c]]
            | w # ws \<Rightarrow> (c # w) # ws))"

definition isDigit :: "char \<Rightarrow> bool" where
  "isDigit c = (48 \<le> (of_char c :: nat) \<and> (of_char c :: nat) \<le> 57)"

fun digitsValue :: "int \<Rightarrow> string \<Rightarrow> int" where
  "digitsValue acc [] = acc"
| "digitsValue acc (c # cs) = digitsValue (acc * 10 + (int (of_char c) - 48)) cs"

text \<open>
  \<open>Number(s)\<close> on the strings that occur as the parts of a time of day: a string of
  decimal digits is its value and the empty string is 0. Every other string is taken
  to \<open>NaN\<close>; the further numeric literals of JavaScript (signs, fractions, exponents,
  hexadecimal, surrounding white space) are not modelled.
\<close>

definition Number_str :: "string \<Rightarrow> jsnum" where
  "Number_str s = (if list_all isDigit s then Num (digitsValue 0 s) else NaN)"

text \<open>
  Array destructuring \<open>const [hours, minutes] = parts\<close>: a missing element is
  \<open>undefined\<close>, which \<open>setHours\<close> converts to \<open>NaN\<close>.
\<close>

fun element :: "jsnum list \<Rightarrow> nat \<Rightarrow> jsnum" where
  "element [] i = NaN"
| "element (x # xs) 0 = x"
| "element (x # xs) (Suc i) = element xs i"

text \<open>\<open>s.toLowerCase()\<close>, on the letters of ASCII.\<close>

definition toLowerCase :: "string \<Rightarrow> string" where
  "toLowerCase s =
     map (\<lambda>c. if 65 \<le> (of_char c :: nat) \<and> (of_char c :: nat) \<le> 90
              then char_of ((of_char c :: nat) + 32) else c) s"

text \<open>\<open>xs.indexOf(x)\<close>: the first index of \<open>x\<close>, or -1.\<close>

fun indexOfFrom :: "int \<Rightarrow> string list \<Rightarrow> string \<Rightarrow> int" where
  "indexOfFrom i [] x = -1"
| "indexOfFrom i (y # ys) x = (if y = x then i else indexOfFrom (i + 1) ys x)"

definition indexOf :: "string list \<Rightarrow> string \<Rightarrow> int" where
  "indexOf xs x = indexOfFrom 0 xs x"

text \<open>\<open>v || dflt\<close> on an optional string: absent and empty are both falsy.\<close>

definition orDefault :: "string option \<Rightarrow> string \<Rightarrow> string" where
  "orDefault v dflt = (case v of None \<Rightarrow> dflt | Some s \<Rightarrow> if s = [] then dflt else s)"

section \<open>The next-run calculator (\<open>src/utils/schedule-calculator.ts\<close>)\<close>

record schedule_config =
  dayOfWeek :: "string option"
  time :: "string option"
  cronExpression :: "string option"
  weekOfMonth :: "string option"

definition daysOfWeek :: "string list" where
  "daysOfWeek =
     [''sunday'', ''monday'', ''tuesday'', ''wednesday'', ''thursday'', ''friday'',
      ''saturday'']"

definition calculateDailyNextRun :: "jsdate \<Rightarrow> string \<Rightarrow> string \<Rightarrow> jsdate" where
  "calculateDailyNextRun now tm timezone =
     (let parts = map Number_str (split_str CHR '':'' tm);
          hours = element parts 0;
          minutes = element parts 1;
          nextRun = setHours now hours minutes (Num 0) (Num 0)
      in if js_le nextRun now
         then setDate nextRun (js_add (getDate nextRun) (Num 1))
         else nextRun)"

definition calculateWeeklyNextRun :: "jsdate \<Rightarrow> string \<Rightarrow> string \<Rightarrow> string \<Rightarrow> jsdate" where
  "calculateWeeklyNextRun now dow tm timezone =
     (let targetDay = Num (indexOf daysOfWeek (toLowerCase dow));
          currentDay = getDay now;
          parts = map Number_str (split_str CHR '':'' tm);
          hours = element parts 0;
          minutes = element parts 1;
          daysUntilTarget = js_sub targetDay currentDay;
          (daysUntilTarget', nextRun) =
            (if js_lt daysUntilTarget (Num 0)
             then (js_add daysUntilTarget (Num 7), now)
             else if js_eq daysUntilTarget (Num 0)
             then (let nextRun = setHours now hours minutes (Num 0) (Num 0)
                   in (if js_le nextRun now then Num 7 else daysUntilTarget, nextRun))
             else (daysUntilTarget, now));
          nextRun' = setDate nextRun (js_add (getDate now) daysUntilTarget')
      in setHours nextRun' hours minutes (Num 0) (Num 0))"

text \<open>
  The two scanning loops of the monthly schedules,
  \<^verbatim>\<open>while (nextRun.getDay() !== targetDay) nextRun.setDate(nextRun.getDate() + 1)\<close>
  and the same with \<open>- 1\<close>. They do not return when \<open>targetDay\<close> is -1 (a day name
  that is not in \<open>daysOfWeek\<close>): not returning is the value \<open>None\<close>.
\<close>

partial_function (option) scanForward :: "jsnum \<Rightarrow> jsdate \<Rightarrow> jsdate option" where
  "scanForward targetDay nextRun =
     (if \<not> js_eq (getDay nextRun) targetDay
      then scanForward targetDay (setDate nextRun (js_add (getDate nextRun) (Num 1)))
      else Some nextRun)"

declare scanForward.simps [code]

partial_function (option) scanBackward :: "jsnum \<Rightarrow> jsdate \<Rightarrow> jsdate option" where
  "scanBackward targetDay nextRun =
     (if \<not> js_eq (getDay nextRun) targetDay
      then scanBackward targetDay (setDate nextRun (js_sub (getDate nextRun) (Num 1)))
      else Some nextRun)"

declare scanBackward.simps [code]

definition calculateMonthlyFirstWeekdayNextRun ::
  "jsdate \<Rightarrow> string \<Rightarrow> string \<Rightarrow> string \<Rightarrow> jsdate option" where
  "calculateMonthlyFirstWeekdayNextRun now dow tm timezone =
     (let targetDay = Num (indexOf daysOfWeek (toLowerCase dow));
          parts = map Number_str (split_str CHR '':'' tm);
          hours = element parts 0;
          minutes = element parts 1
      in case scanForward targetDay (newDate (getFullYear now) (getMonth now) (Num 1)) of
           None \<Rightarrow> None
         | Some found \<Rightarrow>
             (let nextRun = setHours found hours minutes (Num 0) (Num 0)
              in if js_le nextRun now
                 then (case scanForward targetDay
                              (newDate (getFullYear now) (js_add (getMonth now) (Num 1)) (Num 1)) of
                         None \<Rightarrow> None
                       | Some found' \<Rightarrow> Some (setHours found' hours minutes (Num 0) (Num 0)))
                 else Some nextRun))"

definition calculateMonthlyLastWeekdayNextRun ::
  "jsdate \<Rightarrow> string \<Rightarrow> string \<Rightarrow> string \<Rightarrow> jsdate option" where
  "calculateMonthlyLastWeekdayNextRun now dow tm timezone =
     (let targetDay = Num (indexOf daysOfWeek (toLowerCase dow));
          parts = map Number_str (split_str CHR '':'' tm);
          hours = element parts 0;
          minutes = element parts 1
      in case scanBackward targetDay
                (newDate (getFullYear now) (js_add (getMonth now) (Num 1)) (Num 0)) of
           None \<Rightarrow> None
         | Some found \<Rightarrow>
             (let nextRun = setHours found hours minutes (Num 0) (Num 0)
              in if js_le nextRun now
                 then (case scanBackward targetDay
                              (newDate (getFullYear now) (js_add (getMonth now) (Num 2)) (Num 0)) of
                         None \<Rightarrow> None
                       | Some found' \<Rightarrow> Some (setHours found' hours minutes (Num 0) (Num 0)))
                 else Some nextRun))"

text \<open>
  \<open>calculateNextRun(scheduleType, config, timezone)\<close> starts with
  \<open>const now = new Date()\<close>: it reads the system clock. The reading is the first
  argument of the model. The result is \<open>None\<close> when the call does not return,
  \<open>Some (Inl msg)\<close> when it throws \<open>Error(msg)\<close>, and \<open>Some (Inr d)\<close> when it returns
  the Date \<open>d\<close>.
\<close>

definition calculateNextRun ::
  "jsdate \<Rightarrow> string \<Rightarrow> schedule_config \<Rightarrow> string \<Rightarrow> (string + jsdate) option" where
  "calculateNextRun now scheduleType cfg timezone =
     (if scheduleType = ''daily''
      then Some (Inr (calculateDailyNextRun now (orDefault (time cfg) ''09:00'') timezone))
      else if scheduleType = ''weekly''
      then Some (Inr (calculateWeeklyNextRun now (orDefault (dayOfWeek cfg) ''monday'')
                        (orDefault (time cfg) ''09:00'') timezone))
      else if scheduleType = ''monthly-first-weekday''
      then map_option Inr
             (calculateMonthlyFirstWeekdayNextRun now (orDefault (dayOfWeek cfg) ''monday'')
                (orDefault (time cfg) ''09:00'') timezone)
      else if scheduleType = ''monthly-last-weekday''
      then map_option Inr
             (calculateMonthlyLastWeekdayNextRun now (orDefault (dayOfWeek cfg) ''monday'')
                (orDefault (time cfg) ''09:00'') timezone)
      else if scheduleType = ''custom''
      then Some (Inr (calculateDailyNextRun now (orDefault (time cfg) ''09:00'') timezone))
      else Some (Inl (''Unsupported schedule type: '' @ scheduleType)))"

section \<open>The schedule checker (\<open>ScheduleChecker\<close> cron step)\<close>

text \<open>
  The stored record. A timestamp field holds an ISO-8601 string; the model keeps the
  Date that \<open>new Date(string)\<close> makes of it (\<open>NaN\<close> when the string does not parse),
  and \<open>toISOString()\<close> of a valid Date is a string that parses back to the same Date.
  An optional field is \<open>None\<close> when it is absent.
\<close>

record schedule =
  scheduleId :: string
  customerId :: string
  customerEmail :: string
  scheduleType :: string
  nextRun :: jsdate
  lastRun :: "jsdate option"
  timezone :: string
  fileType :: string
  format :: string
  status :: string
  config :: schedule_config
  executionCount :: "int option"
  lastError :: "string option"
  createdAt :: "jsdate option"
  updatedAt :: "jsdate option"

text \<open>The event that \<open>emit\<close> sends: its topic and the five fields of its data.\<close>

record event =
  topic :: string
  ev_scheduleId :: string
  ev_customerId :: string
  ev_customerEmail :: string
  ev_fileType :: string
  ev_format :: string

text \<open>
  A log entry: the level, the message (the first argument of the logger call; a
  template's placeholder is written \<open>N\<close>) and, of the structured data, the numbers
  that are counts or the text of the error.
\<close>

datatype log_entry =
    LogInfo string "int list"
  | LogWarn string string
  | LogError string string

text \<open>The calls to the collaborators that may throw.\<close>

datatype call =
    GetGroup
  | SetKey string schedule
  | DeleteKey string
  | EmitEvent event

text \<open>
  The world of one process: the state group \<open>file_schedules\<close> as an association list
  from key to record, what has been emitted, written, deleted and logged so far, and
  two oracles that the program cannot influence: the system clock (\<open>clock w n\<close> is
  what the \<open>n\<close>-th \<open>new Date()\<close> reads) and the collaborators' failures (\<open>fault w n c\<close> is
  the message of the error thrown when the \<open>n\<close>-th collaborator call is \<open>c\<close>, or
  \<open>None\<close> when that call succeeds). \<open>getGroup\<close> returns the records as values: what the
  handler assigns to a record reaches the store only through \<open>state.set\<close>.
\<close>

record world =
  store :: "(string \<times> schedule) list"
  emitted :: "event list"
  writes :: "(string \<times> schedule) list"
  deletes :: "string list"
  logs :: "log_entry list"
  clock :: "nat \<Rightarrow> int"
  reads :: nat
  fault :: "nat \<Rightarrow> call \<Rightarrow> string option"
  calls :: nat

definition new_Date :: "world \<Rightarrow> int \<times> world" where
  "new_Date w = (clock w (reads w), w\<lparr>reads := Suc (reads w)\<rparr>)"

definition logger_info :: "string \<Rightarrow> int list \<Rightarrow> world \<Rightarrow> world" where
  "logger_info msg nums w = w\<lparr>logs := logs w @ [LogInfo msg nums]\<rparr>"

definition logger_warn :: "string \<Rightarrow> string \<Rightarrow> world \<Rightarrow> world" where
  "logger_warn msg err w = w\<lparr>logs := logs w @ [LogWarn msg err]\<rparr>"

definition logger_error :: "string \<Rightarrow> string \<Rightarrow> world \<Rightarrow> world" where
  "logger_error msg err w = w\<lparr>logs := logs w @ [LogError msg err]\<rparr>"

text \<open>
  The collaborators. Each call counts, and throws (\<open>Inl\<close> of the message) without
  effect when the fault oracle says so. \<open>getGroup\<close> resolves to an array, as its type
  declares, so the handler's test \<open>!allSchedules\<close> adds nothing to the test for the
  empty array.
\<close>

definition state_getGroup :: "world \<Rightarrow> (string + schedule list) \<times> world" where
  "state_getGroup w =
     (let w' = w\<lparr>calls := Suc (calls w)\<rparr> in
      case fault w (calls w) GetGroup of
        Some err \<Rightarrow> (Inl err, w')
      | None \<Rightarrow> (Inr (map snd (store w)), w'))"

definition state_set :: "string \<Rightarrow> schedule \<Rightarrow> world \<Rightarrow> (string + unit) \<times> world" where
  "state_set k v w =
     (let w' = w\<lparr>calls := Suc (calls w)\<rparr> in
      case fault w (calls w) (SetKey k v) of
        Some err \<Rightarrow> (Inl err, w')
      | None \<Rightarrow>
          (Inr (), w'\<lparr>store := AList.update k v (store w), writes := writes w @ [(k, v)]\<rparr>))"

definition state_delete :: "string \<Rightarrow> world \<Rightarrow> (string + unit) \<times> world" where
  "state_delete k w =
     (let w' = w\<lparr>calls := Suc (calls w)\<rparr> in
      case fault w (calls w) (DeleteKey k) of
        Some err \<Rightarrow> (Inl err, w')
      | None \<Rightarrow>
          (Inr (), w'\<lparr>store := AList.delete k (store w), deletes := deletes w @ [k]\<rparr>))"

definition emit :: "event \<Rightarrow> world \<Rightarrow> (string + unit) \<times> world" where
  "emit ev w =
     (let w' = w\<lparr>calls := Suc (calls w)\<rparr> in
      case fault w (calls w) (EmitEvent ev) of
        Some err \<Rightarrow> (Inl err, w')
      | None \<Rightarrow> (Inr (), w'\<lparr>emitted := emitted w @ [ev]\<rparr>))"

definition triggerOf :: "schedule \<Rightarrow> event" where
  "triggerOf s =
     \<lparr>topic = ''file.generate'',
      ev_scheduleId = scheduleId s,
      ev_customerId = customerId s,
      ev_customerEmail = customerEmail s,
      ev_fileType = fileType s,
      ev_format = format s\<rparr>"

text \<open>
  Lines 86 to 97 of the handler, on the local object \<open>schedule\<close>: the next run is
  computed at the clock reading \<open>now\<close>, then the four fields are assigned in order
  (\<open>executionCount\<close> becomes \<open>(schedule.executionCount || 0) + 1\<close>, a sum of doubles).
  \<open>nextRun.toISOString()\<close> throws \<open>RangeError("Invalid time value")\<close> on an Invalid
  Date, after \<open>lastRun\<close> has been assigned. \<open>Inl\<close> carries the message and the object
  as it stands when the error is thrown.
\<close>

definition advanceSchedule ::
  "int \<Rightarrow> int \<Rightarrow> schedule \<Rightarrow> ((string \<times> schedule) + schedule) option" where
  "advanceSchedule currentTime now s =
     (case calculateNextRun (Num now) (scheduleType s) (config s) (timezone s) of
        None \<Rightarrow> None
      | Some (Inl err) \<Rightarrow> Some (Inl (err, s))
      | Some (Inr next) \<Rightarrow>
          (let s1 = s\<lparr>lastRun := Some (Num currentTime)\<rparr> in
           case next of
             NaN \<Rightarrow> Some (Inl (''Invalid time value'', s1))
           | Num t \<Rightarrow>
               Some (Inr (s1\<lparr>nextRun := Num t,
                              executionCount :=
                                Some (js_plus_one
                                        (case executionCount s1 of None \<Rightarrow> 0 | Some n \<Rightarrow> n)),
                              updatedAt := Some (Num currentTime)\<rparr>))))"

text \<open>
  The body of the \<open>try\<close> block for one schedule (lines 42 to 119). The result is
  \<open>None\<close> when it does not return; otherwise the world it leaves, with \<open>Inr triggered\<close>
  when it completes and \<open>Inl (message, schedule)\<close> when it throws, \<open>schedule\<close> being the
  local object at that point.
\<close>

definition trySchedule ::
  "int \<Rightarrow> schedule \<Rightarrow> world \<Rightarrow> (((string \<times> schedule) + bool) \<times> world) option" where
  "trySchedule currentTime s w =
     (if status s \<noteq> ''active''
      then Some (Inr False, logger_info ''Skipping non-active schedule'' [] w)
      else
        (let scheduledTime = nextRun s;
             w1 = logger_info ''Checking schedule'' [] w
         in if js_le scheduledTime (Num currentTime)
            then
              (let w2 = logger_info ''Schedule is due, triggering file generation'' [] w1 in
               case emit (triggerOf s) w2 of
                 (Inl err, w3) \<Rightarrow> Some (Inl (err, s), w3)
               | (Inr _, w3) \<Rightarrow>
                   (let (now, w4) = new_Date w3 in
                    case advanceSchedule currentTime now s of
                      None \<Rightarrow> None
                    | Some (Inl (err, s')) \<Rightarrow> Some (Inl (err, s'), w4)
                    | Some (Inr s') \<Rightarrow>
                        (case state_set (scheduleId s') s' w4 of
                           (Inl err, w5) \<Rightarrow> Some (Inl (err, s'), w5)
                         | (Inr _, w5) \<Rightarrow>
                             Some (Inr True,
                                   logger_info ''Schedule executed successfully'' [] w5))))
            else Some (Inr False, logger_info ''Schedule not due yet'' [] w1)))"

text \<open>
  One iteration of the loop: the \<open>try\<close> block and its \<open>catch\<close> (lines 120 to 138).
  The \<open>catch\<close> block writes the record itself; when that write throws, the error
  leaves the loop (\<open>Inl\<close>).
\<close>

definition processSchedule ::
  "int \<Rightarrow> schedule \<Rightarrow> world \<Rightarrow> ((string + bool) \<times> world) option" where
  "processSchedule currentTime s w =
     (case trySchedule currentTime s w of
        None \<Rightarrow> None
      | Some (Inr triggered, w') \<Rightarrow> Some (Inr triggered, w')
      | Some (Inl (err, s'), w') \<Rightarrow>
          (let w1 = logger_error ''Error processing schedule'' err w';
               (now, w2) = new_Date w1;
               s'' = s'\<lparr>status := ''failed'', lastError := Some err,
                        updatedAt := Some (Num now)\<rparr>
           in case state_set (scheduleId s'') s'' w2 of
                (Inl err', w3) \<Rightarrow> Some (Inl err', w3)
              | (Inr _, w3) \<Rightarrow> Some (Inr False, w3)))"

text \<open>
  The loop over \<open>allSchedules\<close>, with the counters \<open>checkedCount\<close> and
  \<open>triggeredCount\<close>.
\<close>

fun checkSchedules ::
  "int \<Rightarrow> schedule list \<Rightarrow> nat \<Rightarrow> nat \<Rightarrow> world \<Rightarrow> ((string + nat \<times> nat) \<times> world) option" where
  "checkSchedules currentTime [] checked triggered w = Some (Inr (checked, triggered), w)"
| "checkSchedules currentTime (s # ss) checked triggered w =
     (case processSchedule currentTime s w of
        None \<Rightarrow> None
      | Some (Inl err, w') \<Rightarrow> Some (Inl err, w')
      | Some (Inr t, w') \<Rightarrow>
          checkSchedules currentTime ss (Suc checked) (if t then Suc triggered else triggered) w')"

text \<open>\<open>cleanupOldSchedules\<close>: its loop, then the function with its \<open>try\<close>/\<open>catch\<close>.\<close>

fun cleanupLoop :: "int \<Rightarrow> schedule list \<Rightarrow> nat \<Rightarrow> world \<Rightarrow> (string + nat) \<times> world" where
  "cleanupLoop thirtyDaysAgo [] cleaned w = (Inr cleaned, w)"
| "cleanupLoop thirtyDaysAgo (s # ss) cleaned w =
     (if status s = ''failed''
      then (case updatedAt s of
              None \<Rightarrow> cleanupLoop thirtyDaysAgo ss cleaned w
            | Some updatedTime \<Rightarrow>
                if js_lt updatedTime (Num thirtyDaysAgo)
                then (case state_delete (scheduleId s) w of
                        (Inl err, w') \<Rightarrow> (Inl err, w')
                      | (Inr _, w') \<Rightarrow>
                          cleanupLoop thirtyDaysAgo ss (Suc cleaned)
                            (logger_info ''Cleaned up old failed schedule'' [] w'))
                else cleanupLoop thirtyDaysAgo ss cleaned w)
      else cleanupLoop thirtyDaysAgo ss cleaned w)"

definition cleanupOldSchedules :: "world \<Rightarrow> world" where
  "cleanupOldSchedules w =
     (case state_getGroup w of
        (Inl err, w1) \<Rightarrow> logger_warn ''Error during cleanup'' err w1
      | (Inr allSchedules, w1) \<Rightarrow>
          (let (currentTime, w2) = new_Date w1;
               thirtyDaysAgo = currentTime - 30 * 24 * 60 * 60 * 1000
           in case cleanupLoop thirtyDaysAgo allSchedules 0 w2 of
                (Inl err, w3) \<Rightarrow> logger_warn ''Error during cleanup'' err w3
              | (Inr cleaned, w3) \<Rightarrow>
                  if 0 < cleaned
                  then logger_info ''Cleaned up N old schedules'' [int cleaned] w3
                  else w3))"

text \<open>
  The handler. It returns nothing and catches every error, so its result is the world
  it leaves, or \<open>None\<close> when it does not return.
\<close>

definition handler :: "world \<Rightarrow> world option" where
  "handler w =
     (let w0 = logger_info ''Starting schedule check'' [] w in
      case state_getGroup w0 of
        (Inl err, w1) \<Rightarrow> Some (logger_error ''Schedule checker failed'' err w1)
      | (Inr allSchedules, w1) \<Rightarrow>
          if allSchedules = []
          then Some (logger_info ''No schedules found'' [] w1)
          else
            (let (currentTime, w2) = new_Date w1;
                 w3 = logger_info ''Found N schedules to check'' [int (length allSchedules)] w2
             in case checkSchedules currentTime allSchedules 0 0 w3 of
                  None \<Rightarrow> None
                | Some (Inl err, w4) \<Rightarrow> Some (logger_error ''Schedule checker failed'' err w4)
                | Some (Inr (checked, triggered), w4) \<Rightarrow>
                    Some (cleanupOldSchedules
                            (logger_info ''Schedule check completed''
                               [int checked, int triggered] w4))))"

section \<open>What the specification speaks of\<close>

text \<open>
  A time of day in the specification's format, \<open>HH:MM\<close> on the 24-hour clock (hours
  00 to 23, minutes 00 to 59), and its value in milliseconds after midnight.
\<close>

definition valid_time :: "string \<Rightarrow> bool" where
  "valid_time s =
     (case s of
        [a, b, c, d, e] \<Rightarrow>
          isDigit a \<and> isDigit b \<and> c = CHR '':'' \<and> isDigit d \<and> isDigit e \<and>
          digitsValue 0 [a, b] < 24 \<and> digitsValue 0 [d, e] < 60
      | _ \<Rightarrow> False)"

definition hoursOf :: "string \<Rightarrow> int" where
  "hoursOf s = digitsValue 0 (take 2 s)"

definition minutesOf :: "string \<Rightarrow> int" where
  "minutesOf s = digitsValue 0 (drop 3 s)"

definition timeOfDay :: "string \<Rightarrow> int" where
  "timeOfDay s = MakeTime (hoursOf s) (minutesOf s) 0 0"

text \<open>
  A valid config: a \<open>time\<close> that is present is a time of day as above, a \<open>dayOfWeek\<close>
  that is present is one of the seven lower-case English day names.
\<close>

definition scheduleTypes :: "string list" where
  "scheduleTypes =
     [''daily'', ''weekly'', ''monthly-first-weekday'', ''monthly-last-weekday'', ''custom'']"

definition valid_config :: "schedule_config \<Rightarrow> bool" where
  "valid_config cfg =
     ((case time cfg of None \<Rightarrow> True | Some tm \<Rightarrow> valid_time tm) \<and>
      (case dayOfWeek cfg of None \<Rightarrow> True | Some d \<Rightarrow> d \<in> set daysOfWeek))"

text \<open>
  Day numbers count days since 1970-01-01. The weekday of a day number (0 = Sunday),
  the first day on or after \<open>d\<close> and the last day on or before \<open>d\<close> whose weekday is
  \<open>i\<close>.
\<close>

definition weekdayOfDay :: "int \<Rightarrow> int" where
  "weekdayOfDay d = (d + 4) mod 7"

definition firstOnOrAfter :: "int \<Rightarrow> int \<Rightarrow> int" where
  "firstOnOrAfter i d = d + (i - weekdayOfDay d) mod 7"

definition lastOnOrBefore :: "int \<Rightarrow> int \<Rightarrow> int" where
  "lastOnOrBefore i d = d - (weekdayOfDay d - i) mod 7"


text \<open>
  The number of days the weekly branch adds to today, from the target weekday \<open>i\<close>, the
  current weekday \<open>w\<close> and whether today's slot has passed.
\<close>

definition weeklyDays :: "int \<Rightarrow> int \<Rightarrow> bool \<Rightarrow> int" where
  "weeklyDays i w passed =
     (if i - w < 0 then i - w + 7 else if i - w = 0 then (if passed then 7 else 0) else i - w)"

text \<open>A config used in the worked examples.\<close>

definition example_config :: schedule_config where
  "example_config =
     \<lparr>dayOfWeek = Some ''monday'', time = Some ''09:00'', cronExpression = None,
      weekOfMonth = None\<rparr>"

text \<open>
  A record is due at the instant \<open>currentTime\<close> when it is active and its next run is
  not after \<open>currentTime\<close>.
\<close>

definition isDue :: "int \<Rightarrow> schedule \<Rightarrow> bool" where
  "isDue currentTime s \<longleftrightarrow> status s = ''active'' \<and> js_le (nextRun s) (Num currentTime)"

text \<open>
  The next-run computation for a record returns: the two monthly types scan for a
  weekday, and the scan ends only when the (lower-cased, defaulted) day name is one of
  \<open>daysOfWeek\<close>.
\<close>

definition nextRunReturns :: "schedule \<Rightarrow> bool" where
  "nextRunReturns s \<longleftrightarrow>
     (scheduleType s = ''monthly-first-weekday'' \<or> scheduleType s = ''monthly-last-weekday'' \<longrightarrow>
      toLowerCase (orDefault (dayOfWeek (config s)) ''monday'') \<in> set daysOfWeek)"

text \<open>
  Assumptions on the collaborators: none of their calls fails; or at least no write of
  a record whose status is \<open>failed\<close> fails (the write that the \<open>catch\<close> block makes).
\<close>

definition noFaults :: "world \<Rightarrow> bool" where
  "noFaults w \<longleftrightarrow> (\<forall>n c. fault w n c = None)"

definition quarantineOK :: "world \<Rightarrow> bool" where
  "quarantineOK w \<longleftrightarrow> (\<forall>n k v. status v = ''failed'' \<longrightarrow> fault w n (SetKey k v) = None)"

text \<open>
  The store as the creation endpoint keeps it: one record per key, stored under its own
  \<open>scheduleId\<close>.
\<close>

definition wf_store :: "(string \<times> schedule) list \<Rightarrow> bool" where
  "wf_store st \<longleftrightarrow> distinct (map fst st) \<and> (\<forall>(k, v) \<in> set st. k = scheduleId v)"

text \<open>
  A record that the pruning pass is to delete at the clock reading \<open>currentTime\<close>:
  failed, with an \<open>updatedAt\<close> older than thirty days.
\<close>

definition prunable :: "int \<Rightarrow> schedule \<Rightarrow> bool" where
  "prunable currentTime s \<longleftrightarrow>
     status s = ''failed'' \<and>
     (case updatedAt s of
        Some (Num u) \<Rightarrow> u < currentTime - 30 * msPerDay
      | _ \<Rightarrow> False)"

text \<open>
  \<open>schedule.executionCount || 0\<close>; and \<open>N\<close> successive polls, each an invocation of
  the handler on the world that the poll before left. \<open>dueAtPolls k N w\<close> says that at
  each of the \<open>N\<close> polls the record that the poll finds under the key \<open>k\<close> is due at
  the instant that the handler reads as \<open>currentTime\<close>; it says nothing of a poll that
  finds no record under \<open>k\<close>, or that does not take place because a poll before it has
  not returned. \<open>storedAfterPolls k N w\<close> lists, for each poll, that \<open>currentTime\<close> and
  the record found in the store under \<open>k\<close> when the poll has ended; it is \<open>None\<close> when
  a poll does not return or leaves no record under \<open>k\<close>.
\<close>

definition countOf :: "schedule \<Rightarrow> int" where
  "countOf s = (case executionCount s of None \<Rightarrow> 0 | Some n \<Rightarrow> n)"

fun dueAtPolls :: "string \<Rightarrow> nat \<Rightarrow> world \<Rightarrow> bool" where
  "dueAtPolls k 0 w = True"
| "dueAtPolls k (Suc n) w =
     ((case map_of (store w) k of None \<Rightarrow> True | Some s \<Rightarrow> isDue (clock w (reads w)) s) \<and>
      (case handler w of None \<Rightarrow> True | Some w' \<Rightarrow> dueAtPolls k n w'))"

fun storedAfterPolls :: "string \<Rightarrow> nat \<Rightarrow> world \<Rightarrow> (int \<times> schedule) list option" where
  "storedAfterPolls k 0 w = Some []"
| "storedAfterPolls k (Suc n) w =
     (case handler w of
        None \<Rightarrow> None
      | Some w' \<Rightarrow>
          (case map_of (store w') k of
             None \<Rightarrow> None
           | Some s' \<Rightarrow>
               map_option (Cons (clock w (reads w), s')) (storedAfterPolls k n w')))"

text \<open>
  What one iteration of the loop may do to the store: nothing, or one write under the
  key of the record it processes, of a record with the same id, type and config.
\<close>

definition rewritten :: "schedule \<Rightarrow> (string \<times> schedule) list \<Rightarrow> (string \<times> schedule) list \<Rightarrow> bool" where
  "rewritten s st st' \<longleftrightarrow>
     st' = st \<or>
     (\<exists>v. scheduleId v = scheduleId s \<and> scheduleType v = scheduleType s \<and>
          config v = config s \<and> st' = AList.update (scheduleId s) v st)"

text \<open>Records, stores and worlds used in the worked examples.\<close>

definition example_schedule :: "string \<Rightarrow> string \<Rightarrow> string \<Rightarrow> jsdate \<Rightarrow> schedule" where
  "example_schedule k ty st next =
     \<lparr>scheduleId = k, customerId = ''customer-001'', customerEmail = ''one@example.com'',
      scheduleType = ty, nextRun = next, lastRun = None, timezone = ''UTC'',
      fileType = ''products'', format = ''excel'', status = st, config = example_config,
      executionCount = Some 0, lastError = None, createdAt = Some (Num 1703000000000),
      updatedAt = Some (Num 1703000000000)\<rparr>"

definition example_world :: "(string \<times> schedule) list \<Rightarrow> (nat \<Rightarrow> call \<Rightarrow> string option) \<Rightarrow> world" where
  "example_world st f =
     \<lparr>store = st, emitted = [], writes = [], deletes = [], logs = [],
      clock = (\<lambda>n. 1704101400000 + 1000 * int n), reads = 0, fault = f, calls = 0\<rparr>"

definition daily_clock_world :: "(string \<times> schedule) list \<Rightarrow> world" where
  "daily_clock_world st =
     \<lparr>store = st, emitted = [], writes = [], deletes = [], logs = [],
      clock = (\<lambda>n. 1704101400000 + 86400000 * int n), reads = 0, fault = (\<lambda>n c. None),
      calls = 0\<rparr>"

definition example_store :: "(string \<times> schedule) list" where
  "example_store =
     [(''a'', example_schedule ''a'' ''daily'' ''active'' (Num 1000000000000)),
      (''b'', example_schedule ''b'' ''weekly'' ''active'' (Num 1705000000000)),
      (''c'', example_schedule ''c'' ''yearly'' ''active'' (Num 1704000000000)),
      (''d'', example_schedule ''d'' ''daily'' ''paused'' (Num 1704000000000))]"

definition writes_fail :: "nat \<Rightarrow> call \<Rightarrow> string option" where
  "writes_fail n c = (case c of SetKey k v \<Rightarrow> Some ''state store unavailable'' | _ \<Rightarrow> None)"

definition two_due_store :: "(string \<times> schedule) list" where
  "two_due_store =
     [(''a'', example_schedule ''a'' ''daily'' ''active'' (Num 1704000000000)),
      (''b'', example_schedule ''b'' ''daily'' ''active'' (Num 1704000000000))]"

definition pruning_store :: "(string \<times> schedule) list" where
  "pruning_store =
     [(''f31'', (example_schedule ''f31'' ''daily'' ''failed'' (Num 1701000000000))
                  \<lparr>updatedAt := Some (Num 1701423000000)\<rparr>),
      (''f29'', (example_schedule ''f29'' ''daily'' ''failed'' (Num 1701000000000))
                  \<lparr>updatedAt := Some (Num 1701595800000)\<rparr>),
      (''a'', (example_schedule ''a'' ''daily'' ''active'' (Num 1705000000000))
                  \<lparr>updatedAt := Some (Num 1700645400000)\<rparr>),
      (''p'', (example_schedule ''p'' ''daily'' ''paused'' (Num 1701000000000))
                  \<lparr>updatedAt := Some (Num 1700645400000)\<rparr>)]"

definition polls_store :: "(string \<times> schedule) list" where
  "polls_store =
     [(''a'', example_schedule ''a'' ''daily'' ''active'' (Num 1704000000000)),
      (''c'', example_schedule ''c'' ''yearly'' ''active'' (Num 1704000000000))]"

section \<open>The calendar\<close>

lemma msPerDay_pos: "0 < msPerDay" by (simp add: msPerDay_def)

lemma Day_add_days: "Day (t + k * msPerDay) = Day t + k"
  using msPerDay_pos by (simp add: Day_def)

lemma Day_MakeDate: "0 \<le> tm \<Longrightarrow> tm < msPerDay \<Longrightarrow> Day (MakeDate d tm) = d"
  using msPerDay_pos by (simp add: Day_def MakeDate_def)

lemma TimeWithinDay_MakeDate: "0 \<le> tm \<Longrightarrow> tm < msPerDay \<Longrightarrow> TimeWithinDay (MakeDate d tm) = tm"
  by (simp add: TimeWithinDay_def MakeDate_def)

lemma Day_TimeWithinDay: "Day t * msPerDay + TimeWithinDay t = t"
  by (simp add: Day_def TimeWithinDay_def)

lemma TimeWithinDay_range: "0 \<le> TimeWithinDay t \<and> TimeWithinDay t < msPerDay"
  using msPerDay_pos by (simp add: TimeWithinDay_def)

lemma yearSearch_upper: "d < DayFromYear (yearSearch d y + 1)"
proof (induction d y rule: yearSearch.induct)
  case (1 d y)
  show ?case
  proof (cases "DayFromYear (y + 1) \<le> d")
    case True
    with 1 show ?thesis by (subst yearSearch.simps) simp
  next
    case False
    then show ?thesis by (subst yearSearch.simps) simp
  qed
qed

lemma yearSearch_ge: "y \<le> yearSearch d y"
proof (induction d y rule: yearSearch.induct)
  case (1 d y)
  show ?case
  proof (cases "DayFromYear (y + 1) \<le> d")
    case True
    with 1 have "y + 1 \<le> yearSearch d (y + 1)" by simp
    with True show ?thesis by (subst yearSearch.simps) simp
  next
    case False
    then show ?thesis by (subst yearSearch.simps) simp
  qed
qed

lemma yearSearch_lower: "DayFromYear y \<le> d \<Longrightarrow> DayFromYear (yearSearch d y) \<le> d"
proof (induction d y rule: yearSearch.induct)
  case (1 d y)
  show ?case
  proof (cases "DayFromYear (y + 1) \<le> d")
    case True
    with 1 show ?thesis by (subst yearSearch.simps) simp
  next
    case False
    with 1 show ?thesis by (subst yearSearch.simps) simp
  qed
qed

lemma YearFromTime_upper: "Day t < DayFromYear (YearFromTime t + 1)"
  unfolding YearFromTime_def by (rule yearSearch_upper)

lemma YearFromTime_ge_1970: "0 \<le> t \<Longrightarrow> 1970 \<le> YearFromTime t"
proof -
  assume "0 \<le> t"
  then have "0 \<le> Day t" using msPerDay_pos by (simp add: Day_def pos_imp_zdiv_nonneg_iff)
  then have "0 \<le> Day t div 366" by (simp add: pos_imp_zdiv_nonneg_iff)
  with \<open>0 \<le> Day t\<close> have "1970 \<le> yearEstimate (Day t)" by (simp add: yearEstimate_def)
  also have "\<dots> \<le> YearFromTime t" unfolding YearFromTime_def by (rule yearSearch_ge)
  finally show ?thesis .
qed

lemma YearFromTime_cong: "Day t = Day t' \<Longrightarrow> YearFromTime t = YearFromTime t'"
  by (simp add: YearFromTime_def)

lemma MonthFromTime_cong: "Day t = Day t' \<Longrightarrow> MonthFromTime t = MonthFromTime t'"
  by (simp add: MonthFromTime_def DayWithinYear_def InLeapYear_def YearFromTime_def)

lemma InLeapYearOf_range: "InLeapYearOf y = 0 \<or> InLeapYearOf y = 1"
  by (simp add: InLeapYearOf_def)

lemma MonthFromTime_range: "0 \<le> MonthFromTime t \<and> MonthFromTime t \<le> 11"
  by (simp add: MonthFromTime_def Let_def)

lemma MakeDay_date: "MakeDay y m dt = MakeDay y m 1 + dt - 1"
  by (simp add: MakeDay_def Let_def)

lemma MakeDay_roundtrip:
  "MakeDay (YearFromTime t) (MonthFromTime t) (DateFromTime t + k) = Day t + k"
proof -
  have "MonthFromTime t div 12 = 0" "MonthFromTime t mod 12 = MonthFromTime t"
    using MonthFromTime_range [of t] by simp_all
  then show ?thesis
    by (simp add: MakeDay_def DateFromTime_def DayWithinYear_def InLeapYear_def)
qed

lemma next_month_after:
  "Day t < MakeDay (YearFromTime t) (MonthFromTime t + 1) 1"
proof (cases "MonthFromTime t = 11")
  case True
  then show ?thesis
    using YearFromTime_upper [of t] by (simp add: MakeDay_def monthStart_def)
next
  case False
  with MonthFromTime_range [of t] have m: "0 \<le> MonthFromTime t" "MonthFromTime t + 1 < 12" by simp_all
  then have dm: "(MonthFromTime t + 1) div 12 = 0" "(MonthFromTime t + 1) mod 12 = MonthFromTime t + 1"
    by simp_all
  have "DayWithinYear t < monthStart (MonthFromTime t + 1) (InLeapYear t)"
    using False InLeapYearOf_range [of "YearFromTime t"]
    by (auto simp add: MonthFromTime_def Let_def monthStart_def InLeapYear_def split: if_splits)
  then show ?thesis
    by (simp add: MakeDay_def Let_def dm DayWithinYear_def InLeapYear_def)
qed

lemma setDate_getDate:
  assumes "Day t' = Day t"
  shows "setDate (Num t') (js_add (getDate (Num t)) (Num k)) =
         Num (MakeDate (Day t + k) (TimeWithinDay t'))"
proof -
  have "YearFromTime t' = YearFromTime t" "MonthFromTime t' = MonthFromTime t"
    using assms by (rule YearFromTime_cong, rule MonthFromTime_cong)
  then show ?thesis by (simp add: MakeDay_roundtrip)
qed

lemma setDate_plus: "setDate (Num t) (Num (DateFromTime t + k)) = Num (t + k * msPerDay)"
  using setDate_getDate [of t t k] Day_TimeWithinDay [of t]
  by (simp add: MakeDate_def algebra_simps)

lemma setDate_minus: "setDate (Num t) (Num (DateFromTime t - k)) = Num (t - k * msPerDay)"
  using setDate_plus [of t "- k"] by simp

lemma WeekDay_range: "0 \<le> WeekDay t \<and> WeekDay t \<le> 6"
  by (simp add: WeekDay_def)

lemma WeekDay_add_days: "WeekDay (t + k * msPerDay) = (WeekDay t + k) mod 7"
proof -
  have "WeekDay (t + k * msPerDay) = (Day t + k + 4) mod 7"
    by (simp add: WeekDay_def Day_add_days)
  also have "Day t + k + 4 = (Day t + 4) + k" by simp
  also have "(Day t + 4 + k) mod 7 = ((Day t + 4) mod 7 + k) mod 7"
    by (simp only: mod_add_left_eq)
  finally show ?thesis by (simp only: WeekDay_def)
qed

lemma mod7_zero:
  assumes "0 \<le> i" "i \<le> 6" "0 \<le> w" "w \<le> 6" "(i - w) mod 7 = 0"
  shows "w = (i::int)"
proof -
  from assms(5) have "7 dvd (i - w)" by (simp add: dvd_eq_mod_eq_0)
  then obtain q where q: "i - w = 7 * q" by (auto simp add: dvd_def)
  with assms(1-4) have "q = 0" by linarith
  with q show ?thesis by simp
qed

lemma mod7_step:
  assumes "(i - w) mod 7 = n + 1" "0 \<le> n"
  shows "(i - (w + 1) mod 7) mod 7 = (n::int)"
proof -
  have n: "n < 6"
  proof -
    have "(i - w) mod 7 < 7" by simp
    with assms(1) show ?thesis by linarith
  qed
  have "(i - (w + 1) mod 7) mod 7 = (i - (w + 1)) mod 7" by (simp only: mod_diff_right_eq)
  also have "i - (w + 1) = (i - w) - 1" by simp
  also have "((i - w) - 1) mod 7 = ((i - w) mod 7 - 1) mod 7" by (simp only: mod_diff_left_eq)
  also have "\<dots> = n mod 7" by (simp only: assms(1)) simp
  also have "\<dots> = n" using n assms(2) by simp
  finally show ?thesis .
qed

lemma mod7_step_back:
  assumes "(w - i) mod 7 = n + 1" "0 \<le> n"
  shows "((w - 1) mod 7 - i) mod 7 = (n::int)"
proof -
  have n: "n < 6"
  proof -
    have "(w - i) mod 7 < 7" by simp
    with assms(1) show ?thesis by linarith
  qed
  have "((w - 1) mod 7 - i) mod 7 = ((w - 1) - i) mod 7" by (simp only: mod_diff_left_eq)
  also have "(w - 1) - i = (w - i) - 1" by simp
  also have "((w - i) - 1) mod 7 = ((w - i) mod 7 - 1) mod 7" by (simp only: mod_diff_left_eq)
  also have "\<dots> = n mod 7" by (simp only: assms(1)) simp
  also have "\<dots> = n" using n assms(2) by simp
  finally show ?thesis .
qed

lemma scanForward_closed:
  assumes "0 \<le> i" "i \<le> 6"
  shows "scanForward (Num i) (Num t) = Some (Num (t + ((i - WeekDay t) mod 7) * msPerDay))"
  using assms
proof (induction "nat ((i - WeekDay t) mod 7)" arbitrary: t)
  case 0
  then have "(i - WeekDay t) mod 7 = 0" by simp
  with 0 WeekDay_range [of t] have "WeekDay t = i" using mod7_zero [of i "WeekDay t"] by simp
  then show ?case by (subst scanForward.simps) simp
next
  case (Suc n)
  then have k: "(i - WeekDay t) mod 7 = int n + 1" by linarith
  then have ne: "WeekDay t \<noteq> i" by auto
  have wd: "WeekDay (t + msPerDay) = (WeekDay t + 1) mod 7"
    using WeekDay_add_days [of t 1] by simp
  have k': "(i - WeekDay (t + msPerDay)) mod 7 = int n"
    unfolding wd using k by (simp add: mod7_step)
  then have "n = nat ((i - WeekDay (t + msPerDay)) mod 7)" by simp
  from Suc.hyps(1) [OF this Suc.prems]
  have "scanForward (Num i) (Num (t + msPerDay)) = Some (Num (t + msPerDay + int n * msPerDay))"
    by (simp add: k')
  moreover have "scanForward (Num i) (Num t) = scanForward (Num i) (Num (t + msPerDay))"
    using ne setDate_plus [of t 1] by (subst scanForward.simps) (simp del: setDate.simps)
  ultimately show ?case
    by (simp add: k algebra_simps)
qed

lemma scanBackward_closed:
  assumes "0 \<le> i" "i \<le> 6"
  shows "scanBackward (Num i) (Num t) = Some (Num (t - ((WeekDay t - i) mod 7) * msPerDay))"
  using assms
proof (induction "nat ((WeekDay t - i) mod 7)" arbitrary: t)
  case 0
  then have "(WeekDay t - i) mod 7 = 0" by simp
  with 0 WeekDay_range [of t] have "WeekDay t = i" using mod7_zero [of "WeekDay t" i] by simp
  then show ?case by (subst scanBackward.simps) simp
next
  case (Suc n)
  then have k: "(WeekDay t - i) mod 7 = int n + 1" by linarith
  then have ne: "WeekDay t \<noteq> i" by auto
  have wd: "WeekDay (t - msPerDay) = (WeekDay t - 1) mod 7"
    using WeekDay_add_days [of t "- 1"] by simp
  have k': "(WeekDay (t - msPerDay) - i) mod 7 = int n"
    unfolding wd using k by (simp add: mod7_step_back)
  then have "n = nat ((WeekDay (t - msPerDay) - i) mod 7)" by simp
  from Suc.hyps(1) [OF this Suc.prems]
  have "scanBackward (Num i) (Num (t - msPerDay)) = Some (Num (t - msPerDay - int n * msPerDay))"
    by (simp add: k')
  moreover have "scanBackward (Num i) (Num t) = scanBackward (Num i) (Num (t - msPerDay))"
    using ne setDate_minus [of t 1] by (subst scanBackward.simps) (simp del: setDate.simps)
  ultimately show ?case
    by (simp add: k algebra_simps)
qed

lemma month_length:
  assumes "0 \<le> m" "m \<le> 11"
  shows "MakeDay y (m + 1) 1 + 28 \<le> MakeDay y (m + 2) 1"
proof -
  consider "m \<le> 9" | "m = 10" | "m = 11" using assms by linarith
  then show ?thesis
  proof cases
    case 1
    with assms have dm: "(m + 1) div 12 = 0" "(m + 1) mod 12 = m + 1"
      "(m + 2) div 12 = 0" "(m + 2) mod 12 = m + 2" by simp_all
    have "m = 0 \<or> m = 1 \<or> m = 2 \<or> m = 3 \<or> m = 4 \<or> m = 5 \<or> m = 6 \<or> m = 7 \<or> m = 8 \<or> m = 9"
      using assms 1 by presburger
    then have "monthStart (m + 1) l + 28 \<le> monthStart (m + 2) l" if "l = 0 \<or> l = 1" for l
      using that by (auto simp add: monthStart_def)
    then show ?thesis
      using InLeapYearOf_range [of y] by (simp add: MakeDay_def Let_def dm)
  next
    case 2
    then show ?thesis
      using DayFromYear_step [of y] InLeapYearOf_range [of y]
      by (auto simp add: MakeDay_def Let_def monthStart_def)
  next
    case 3
    then show ?thesis
      by (simp add: MakeDay_def Let_def monthStart_def)
  qed
qed

lemma div_step:
  fixes a k :: int
  assumes "0 < k"
  shows "(a + 1) div k = a div k + (if (a + 1) mod k = 0 then 1 else 0)"
proof -
  define q where "q = a div k"
  define r where "r = a mod k"
  have a: "a = q * k + r" by (simp add: q_def r_def)
  have r: "0 \<le> r" "r < k" using assms by (simp_all add: r_def)
  have d: "(a + 1) div k = q + (r + 1) div k"
  proof -
    have "a + 1 = (r + 1) + q * k" by (simp add: a)
    then show ?thesis using assms by (simp only: div_mult_self1)
  qed
  have m: "(a + 1) mod k = (r + 1) mod k"
  proof -
    have "a + 1 = (r + 1) + q * k" by (simp add: a)
    then show ?thesis by (simp only: mod_mult_self1)
  qed
  show ?thesis
  proof (cases "r + 1 = k")
    case True
    then show ?thesis unfolding d m q_def [symmetric] using assms by simp
  next
    case False
    with r have "r + 1 < k" by simp
    then show ?thesis unfolding d m q_def [symmetric] using r by (simp add: div_pos_pos_trivial)
  qed
qed

lemma DayFromYear_next: "DayFromYear (y + 1) = DayFromYear y + DaysInYear y"
proof -
  have a: "(y + 1 - 1969) div 4 = (y - 1969) div 4 + (if y mod 4 = 0 then 1 else 0)"
  proof -
    have "(y - 1968) mod 4 = (y + (- 492) * 4) mod 4" by simp
    also have "\<dots> = y mod 4" by (simp only: mod_mult_self1)
    finally have "(y - 1968) mod 4 = y mod 4" .
    then show ?thesis using div_step [of 4 "y - 1969"] by simp
  qed
  have b: "(y + 1 - 1901) div 100 = (y - 1901) div 100 + (if y mod 100 = 0 then 1 else 0)"
  proof -
    have "(y - 1900) mod 100 = (y + (- 19) * 100) mod 100" by simp
    also have "\<dots> = y mod 100" by (simp only: mod_mult_self1)
    finally have "(y - 1900) mod 100 = y mod 100" .
    then show ?thesis using div_step [of 100 "y - 1901"] by simp
  qed
  have c: "(y + 1 - 1601) div 400 = (y - 1601) div 400 + (if y mod 400 = 0 then 1 else 0)"
  proof -
    have "(y - 1600) mod 400 = (y + (- 4) * 400) mod 400" by simp
    also have "\<dots> = y mod 400" by (simp only: mod_mult_self1)
    finally have "(y - 1600) mod 400 = y mod 400" .
    then show ?thesis using div_step [of 400 "y - 1601"] by simp
  qed
  have d1: "y mod 4 = 0" if "y mod 100 = 0"
  proof -
    from that have "100 dvd y" by (simp add: dvd_eq_mod_eq_0)
    then have "4 dvd y" by (rule dvd_trans [rotated]) simp
    then show ?thesis by (simp add: dvd_eq_mod_eq_0)
  qed
  have d2: "y mod 100 = 0" if "y mod 400 = 0"
  proof -
    from that have "400 dvd y" by (simp add: dvd_eq_mod_eq_0)
    then have "100 dvd y" by (rule dvd_trans [rotated]) simp
    then show ?thesis by (simp add: dvd_eq_mod_eq_0)
  qed
  show ?thesis
    unfolding DayFromYear_def DaysInYear_def a b c using d1 d2 by auto
qed

lemma DaysInYear_range: "365 \<le> DaysInYear y \<and> DaysInYear y \<le> 366"
  by (simp add: DaysInYear_def)

lemma DayFromYear_after_1970: "0 \<le> k \<Longrightarrow> DayFromYear (1970 + k) \<le> 366 * k"
proof (induction k rule: int_ge_induct)
  case base
  show ?case by (simp add: DayFromYear_def)
next
  case (step i)
  have "DayFromYear (1970 + (i + 1)) = DayFromYear (1970 + i) + DaysInYear (1970 + i)"
    using DayFromYear_next [of "1970 + i"] by (simp add: add.assoc)
  with step.IH DaysInYear_range [of "1970 + i"] show ?case by simp
qed

lemma DayFromYear_before_1970: "k \<le> 0 \<Longrightarrow> DayFromYear (1970 + k) \<le> 365 * k"
proof (induction k rule: int_le_induct)
  case base
  show ?case by (simp add: DayFromYear_def)
next
  case (step i)
  have "DayFromYear (1970 + (i - 1) + 1) =
        DayFromYear (1970 + (i - 1)) + DaysInYear (1970 + (i - 1))"
    by (rule DayFromYear_next)
  then have "DayFromYear (1970 + i) = DayFromYear (1970 + (i - 1)) + DaysInYear (1970 + (i - 1))"
    by simp
  with step.IH DaysInYear_range [of "1970 + (i - 1)"] show ?case by simp
qed

lemma yearEstimate_lower: "DayFromYear (yearEstimate d) \<le> d"
proof (cases "0 \<le> d")
  case True
  then have "0 \<le> d div 366" by (simp add: pos_imp_zdiv_nonneg_iff)
  then have "DayFromYear (1970 + d div 366) \<le> 366 * (d div 366)"
    by (rule DayFromYear_after_1970)
  also have "\<dots> \<le> d" by (simp add: mult.commute)
  finally show ?thesis using True by (simp add: yearEstimate_def)
next
  case False
  then have "d div 365 - 1 \<le> 0" by (simp add: div_neg_pos_less0 less_imp_le)
  then have "DayFromYear (1970 + (d div 365 - 1)) \<le> 365 * (d div 365 - 1)"
    by (rule DayFromYear_before_1970)
  also have "\<dots> = 365 * (d div 365) - 365" by simp
  also have "\<dots> \<le> d" 
  proof -
    have "365 * (d div 365) \<le> d" by (simp add: mult.commute)
    then show ?thesis by simp
  qed
  finally show ?thesis using False by (simp add: yearEstimate_def)
qed

lemma YearFromTime_lower: "DayFromYear (YearFromTime t) \<le> Day t"
  unfolding YearFromTime_def by (rule yearSearch_lower) (rule yearEstimate_lower)

lemma DayWithinYear_range:
  "0 \<le> DayWithinYear t \<and> DayWithinYear t < DaysInYear (YearFromTime t)"
  using YearFromTime_lower [of t] YearFromTime_upper [of t] DayFromYear_next [of "YearFromTime t"]
  by (simp add: DayWithinYear_def)

lemma month_contains_day:
  "MakeDay (YearFromTime t) (MonthFromTime t) 1 \<le> Day t \<and>
   Day t < MakeDay (YearFromTime t) (MonthFromTime t + 1) 1"
proof -
  have "MakeDay (YearFromTime t) (MonthFromTime t) 1 =
        DayFromYear (YearFromTime t) + monthStart (MonthFromTime t) (InLeapYear t)"
    using MonthFromTime_range [of t] by (simp add: MakeDay_def Let_def InLeapYear_def)
  moreover have "monthStart (MonthFromTime t) (InLeapYear t) \<le> DayWithinYear t"
    using DayWithinYear_range [of t]
    by (simp add: MonthFromTime_def monthStart_def Let_def)
  ultimately show ?thesis
    using next_month_after [of t] by (simp add: DayWithinYear_def)
qed

lemma DateFromTime_range: "1 \<le> DateFromTime t \<and> DateFromTime t \<le> 31"
proof -
  have lo: "monthStart (MonthFromTime t) (InLeapYear t) \<le> DayWithinYear t"
    using DayWithinYear_range [of t]
    by (simp add: MonthFromTime_def monthStart_def Let_def)
  have leap: "InLeapYear t = 0 \<or> InLeapYear t = 1"
    using InLeapYearOf_range by (simp add: InLeapYear_def)
  have dy: "DayWithinYear t < 365 + InLeapYear t"
    using DayWithinYear_range [of t] by (auto simp add: InLeapYear_def InLeapYearOf_def DaysInYear_def)
  have hi: "DayWithinYear t \<le> monthStart (MonthFromTime t) (InLeapYear t) + 30"
    using dy leap by (auto simp add: MonthFromTime_def monthStart_def Let_def)
  from lo hi show ?thesis by (simp add: DateFromTime_def)
qed

lemma weekdayOfDay_shift: "weekdayOfDay (d + k) = (weekdayOfDay d + k) mod 7"
proof -
  have "d + k + 4 = (d + 4) + k" by simp
  then have "weekdayOfDay (d + k) = (d + 4 + k) mod 7" by (simp only: weekdayOfDay_def)
  also have "\<dots> = ((d + 4) mod 7 + k) mod 7" by (simp only: mod_add_left_eq)
  finally show ?thesis by (simp only: weekdayOfDay_def)
qed

lemma firstOnOrAfter_spec:
  assumes "0 \<le> i" "i \<le> 6"
  shows "weekdayOfDay (firstOnOrAfter i d) = i \<and> d \<le> firstOnOrAfter i d \<and>
         firstOnOrAfter i d \<le> d + 6 \<and>
         (\<forall>e. d \<le> e \<and> e < firstOnOrAfter i d \<longrightarrow> weekdayOfDay e \<noteq> i)"
proof -
  define w where "w = weekdayOfDay d"
  define k where "k = (i - w) mod 7"
  have k: "0 \<le> k" "k \<le> 6" by (simp_all add: k_def)
  have f: "firstOnOrAfter i d = d + k" by (simp add: firstOnOrAfter_def k_def w_def)
  have hit: "(w + k) mod 7 = i"
  proof -
    have "(w + k) mod 7 = (w + (i - w)) mod 7" unfolding k_def by (simp only: mod_add_right_eq)
    then show ?thesis using assms by simp
  qed
  have least: "weekdayOfDay e \<noteq> i" if "d \<le> e \<and> e < firstOnOrAfter i d" for e
  proof
    assume e: "weekdayOfDay e = i"
    define j where "j = e - d"
    from that have j: "0 \<le> j" "j < k" by (simp_all add: j_def f)
    have "weekdayOfDay e = (w + j) mod 7"
      using weekdayOfDay_shift [of d j] by (simp add: j_def w_def)
    with e hit have "(w + k) mod 7 = (w + j) mod 7" by simp
    then have "7 dvd (w + k) - (w + j)" by (simp only: mod_eq_dvd_iff)
    then have "7 dvd k - j" by simp
    then obtain q where q: "k - j = 7 * q" by (auto simp add: dvd_def)
    with j k have "0 < 7 * q" "7 * q < 7" by linarith+
    then have "0 < q" "q < 1" by simp_all
    then show False by simp
  qed
  show ?thesis
    using k hit least weekdayOfDay_shift [of d k] by (simp add: f w_def)
qed

lemma lastOnOrBefore_spec:
  assumes "0 \<le> i" "i \<le> 6"
  shows "weekdayOfDay (lastOnOrBefore i d) = i \<and> lastOnOrBefore i d \<le> d \<and>
         d - 6 \<le> lastOnOrBefore i d \<and>
         (\<forall>e. lastOnOrBefore i d < e \<and> e \<le> d \<longrightarrow> weekdayOfDay e \<noteq> i)"
proof -
  define w where "w = weekdayOfDay d"
  define k where "k = (w - i) mod 7"
  have k: "0 \<le> k" "k \<le> 6" by (simp_all add: k_def)
  have f: "lastOnOrBefore i d = d - k" by (simp add: lastOnOrBefore_def k_def w_def)
  have hit: "(w - k) mod 7 = i"
  proof -
    have "(w - k) mod 7 = (w - (w - i)) mod 7" unfolding k_def by (simp only: mod_diff_right_eq)
    then show ?thesis using assms by simp
  qed
  have least: "weekdayOfDay e \<noteq> i" if "lastOnOrBefore i d < e \<and> e \<le> d" for e
  proof
    assume e: "weekdayOfDay e = i"
    define j where "j = d - e"
    from that have j: "0 \<le> j" "j < k" by (simp_all add: j_def f)
    have "d + - j = e" "w + - j = w - j" by (simp_all add: j_def)
    then have "weekdayOfDay e = (w - j) mod 7"
      using weekdayOfDay_shift [of d "- j"] by (simp only: w_def)
    with e hit have "(w - j) mod 7 = (w - k) mod 7" by simp
    then have "7 dvd (w - j) - (w - k)" by (simp only: mod_eq_dvd_iff)
    then have "7 dvd k - j" by simp
    then obtain q where q: "k - j = 7 * q" by (auto simp add: dvd_def)
    with j k have "0 < 7 * q" "7 * q < 7" by linarith+
    then have "0 < q" "q < 1" by simp_all
    then show False by simp
  qed
  show ?thesis
    using k hit least weekdayOfDay_shift [of d "- k"] by (simp add: f w_def)
qed

lemma month_length_current:
  assumes "0 \<le> m" "m \<le> 11"
  shows "MakeDay y m 1 + 28 \<le> MakeDay y (m + 1) 1"
proof (cases "m = 0")
  case True
  then show ?thesis by (simp add: MakeDay_def Let_def monthStart_def)
next
  case False
  with assms have "0 \<le> m - 1" "m - 1 \<le> 11" by simp_all
  from month_length [OF this, of y] show ?thesis by (simp add: add.commute)
qed

lemma naive_monthly_targets_in_month:
  "MakeDay (YearFromTime t) (MonthFromTime t) 1
     \<le> firstOnOrAfter i (MakeDay (YearFromTime t) (MonthFromTime t) 1) \<and>
   firstOnOrAfter i (MakeDay (YearFromTime t) (MonthFromTime t) 1)
     < MakeDay (YearFromTime t) (MonthFromTime t + 1) 1 \<and>
   MakeDay (YearFromTime t) (MonthFromTime t) 1
     \<le> lastOnOrBefore i (MakeDay (YearFromTime t) (MonthFromTime t + 1) 0) \<and>
   lastOnOrBefore i (MakeDay (YearFromTime t) (MonthFromTime t + 1) 0)
     < MakeDay (YearFromTime t) (MonthFromTime t + 1) 1"
proof -
  define a where "a = MakeDay (YearFromTime t) (MonthFromTime t) 1"
  define b where "b = MakeDay (YearFromTime t) (MonthFromTime t + 1) 1"
  have len: "a + 28 \<le> b"
    unfolding a_def b_def using MonthFromTime_range [of t] by (intro month_length_current) simp_all
  have last: "MakeDay (YearFromTime t) (MonthFromTime t + 1) 0 = b - 1"
    unfolding b_def by (subst MakeDay_date) simp
  have f: "a \<le> firstOnOrAfter i a" "firstOnOrAfter i a \<le> a + 6"
  proof -
    have "0 \<le> (i - weekdayOfDay a) mod 7" "(i - weekdayOfDay a) mod 7 < 7" by simp_all
    then show "a \<le> firstOnOrAfter i a" "firstOnOrAfter i a \<le> a + 6"
      unfolding firstOnOrAfter_def by linarith+
  qed
  have l: "b - 7 \<le> lastOnOrBefore i (b - 1)" "lastOnOrBefore i (b - 1) \<le> b - 1"
  proof -
    have "0 \<le> (weekdayOfDay (b - 1) - i) mod 7" "(weekdayOfDay (b - 1) - i) mod 7 < 7"
      by simp_all
    then show "b - 7 \<le> lastOnOrBefore i (b - 1)" "lastOnOrBefore i (b - 1) \<le> b - 1"
      unfolding lastOnOrBefore_def by linarith+
  qed
  from len f l show ?thesis
    unfolding a_def [symmetric] b_def [symmetric] last by simp
qed

section \<open>The calculator on valid configs\<close>

lemma valid_time_shape:
  assumes "valid_time s"
  obtains a b d e where "s = [a, b, CHR '':'', d, e]" "isDigit a" "isDigit b" "isDigit d" "isDigit e"
    "digitsValue 0 [a, b] < 24" "digitsValue 0 [d, e] < 60"
  using assms unfolding valid_time_def by (auto split: list.splits)

lemma isDigit_not_colon: "isDigit c \<Longrightarrow> c \<noteq> CHR '':''"
  by (auto simp add: isDigit_def)

lemma parse_valid_time:
  assumes "valid_time s"
  shows "map Number_str (split_str CHR '':'' s) = [Num (hoursOf s), Num (minutesOf s)]"
proof -
  from assms obtain a b d e where s: "s = [a, b, CHR '':'', d, e]"
    and dig: "isDigit a" "isDigit b" "isDigit d" "isDigit e"
    by (rule valid_time_shape)
  from dig have "a \<noteq> CHR '':''" "b \<noteq> CHR '':''" "d \<noteq> CHR '':''" "e \<noteq> CHR '':''"
    by (simp_all add: isDigit_not_colon)
  then have "split_str CHR '':'' s = [[a, b], [d, e]]" by (simp add: s)
  then show ?thesis using dig by (simp add: Number_str_def hoursOf_def minutesOf_def s)
qed

lemma timeOfDay_range:
  assumes "valid_time s"
  shows "0 \<le> timeOfDay s \<and> timeOfDay s < msPerDay"
proof -
  from assms obtain a b d e where s: "s = [a, b, CHR '':'', d, e]"
    and dig: "isDigit a" "isDigit b" "isDigit d" "isDigit e"
    and lt: "digitsValue 0 [a, b] < 24" "digitsValue 0 [d, e] < 60"
    by (rule valid_time_shape)
  have h: "hoursOf s = digitsValue 0 [a, b]" and m: "minutesOf s = digitsValue 0 [d, e]"
    by (simp_all add: hoursOf_def minutesOf_def s)
  have "0 \<le> digitsValue 0 [a, b]" "0 \<le> digitsValue 0 [d, e]"
    using dig by (simp_all add: isDigit_def)
  with lt show ?thesis
    unfolding timeOfDay_def MakeTime_def h m msPerDay_def msPerHour_def msPerMinute_def
    by simp
qed

lemma setHours_valid:
  "setHours (Num t) (Num (hoursOf tm)) (Num (minutesOf tm)) (Num 0) (Num 0) =
   Num (Day t * msPerDay + timeOfDay tm)"
  by (simp add: MakeDate_def timeOfDay_def)

lemma Day_slot: "0 \<le> tod \<Longrightarrow> tod < msPerDay \<Longrightarrow> Day (d * msPerDay + tod) = d"
  using Day_MakeDate [of tod d] by (simp add: MakeDate_def)

lemma calculateDailyNextRun_valid:
  assumes "valid_time tm"
  shows "calculateDailyNextRun (Num now) tm tz =
         Num (if Day now * msPerDay + timeOfDay tm \<le> now
              then Day now * msPerDay + timeOfDay tm + msPerDay
              else Day now * msPerDay + timeOfDay tm)"
  using setDate_plus [of "Day now * msPerDay + timeOfDay tm" 1]
  by (simp add: calculateDailyNextRun_def Let_def parse_valid_time [OF assms] setHours_valid
        del: setDate.simps setHours.simps)

lemma day_name_valid:
  assumes "d \<in> set daysOfWeek"
  shows "toLowerCase d = d" and "0 \<le> indexOf daysOfWeek d" and "indexOf daysOfWeek d \<le> 6"
  using assms by (auto simp add: daysOfWeek_def toLowerCase_def indexOf_def)

lemma setDate_rel:
  assumes "Day t' = Day t"
  shows "setDate (Num t') (Num dt) =
         Num (MakeDate (Day t + (dt - DateFromTime t)) (TimeWithinDay t'))"
  using setDate_getDate [OF assms, of "dt - DateFromTime t"] by simp

lemma Day_MakeDate_within: "Day (MakeDate d (TimeWithinDay t)) = d"
  using TimeWithinDay_range [of t] by (simp add: Day_MakeDate)

lemma calculateWeeklyNextRun_valid:
  assumes "dow \<in> set daysOfWeek" "valid_time tm"
  shows "calculateWeeklyNextRun (Num now) dow tm tz =
         Num ((Day now + weeklyDays (indexOf daysOfWeek dow) (WeekDay now)
                 (Day now * msPerDay + timeOfDay tm \<le> now)) * msPerDay + timeOfDay tm)"
proof -
  have same: "Day (Day now * msPerDay + timeOfDay tm) = Day now"
    using timeOfDay_range [OF assms(2)] by (simp add: Day_slot)
  show ?thesis
    by (simp add: calculateWeeklyNextRun_def Let_def day_name_valid(1) [OF assms(1)]
          parse_valid_time [OF assms(2)] setHours_valid weeklyDays_def
          setDate_rel [of now now] setDate_rel [OF same] Day_MakeDate_within
          del: setDate.simps setHours.simps)
qed

lemma after_day: "Day t < d \<Longrightarrow> 0 \<le> x \<Longrightarrow> t < d * msPerDay + x"
proof -
  assume a: "Day t < d" "0 \<le> x"
  have "t = Day t * msPerDay + TimeWithinDay t" by (simp add: Day_TimeWithinDay)
  also have "\<dots> < (Day t + 1) * msPerDay"
    using TimeWithinDay_range [of t] by (simp add: algebra_simps)
  also have "\<dots> \<le> d * msPerDay"
    using a(1) msPerDay_pos by (intro mult_right_mono) simp_all
  finally show ?thesis using a(2) by simp
qed

lemma WeekDay_midnight: "WeekDay (d * msPerDay) = (d + 4) mod 7"
  using msPerDay_pos by (simp add: WeekDay_def Day_def)

lemma newDate_valid:
  assumes "1970 \<le> y"
  shows "newDate (Num y) (Num m) (Num dt) = Num (MakeDay y m dt * msPerDay)"
  using assms by (simp add: MakeDate_def MakeTime_def)

lemma Day_midnight: "Day (d * msPerDay) = d"
  using msPerDay_pos by (simp add: Day_def)

lemma scanForward_day:
  assumes "0 \<le> i" "i \<le> 6"
  shows "scanForward (Num i) (Num (d * msPerDay)) = Some (Num (firstOnOrAfter i d * msPerDay))"
  unfolding scanForward_closed [OF assms] WeekDay_midnight firstOnOrAfter_def weekdayOfDay_def
  by (simp add: algebra_simps)

lemma scanBackward_day:
  assumes "0 \<le> i" "i \<le> 6"
  shows "scanBackward (Num i) (Num (d * msPerDay)) = Some (Num (lastOnOrBefore i d * msPerDay))"
  unfolding scanBackward_closed [OF assms] WeekDay_midnight lastOnOrBefore_def weekdayOfDay_def
  by (simp add: algebra_simps)

lemma setHours_midnight:
  "setHours (Num (d * msPerDay)) (Num (hoursOf tm)) (Num (minutesOf tm)) (Num 0) (Num 0) =
   Num (d * msPerDay + timeOfDay tm)"
  by (simp add: setHours_valid Day_midnight del: setHours.simps)

lemma calculateMonthlyFirstWeekdayNextRun_valid:
  assumes "dow \<in> set daysOfWeek" "valid_time tm" "0 \<le> now"
  shows "calculateMonthlyFirstWeekdayNextRun (Num now) dow tm tz =
         Some (Num (let i = indexOf daysOfWeek dow;
                        y = YearFromTime now;
                        m = MonthFromTime now;
                        slot = firstOnOrAfter i (MakeDay y m 1) * msPerDay + timeOfDay tm
                    in if slot \<le> now
                       then firstOnOrAfter i (MakeDay y (m + 1) 1) * msPerDay + timeOfDay tm
                       else slot))"
proof -
  note i = day_name_valid [OF assms(1)]
  note y = YearFromTime_ge_1970 [OF assms(3)]
  show ?thesis
    by (simp add: calculateMonthlyFirstWeekdayNextRun_def Let_def i(1)
          parse_valid_time [OF assms(2)] newDate_valid [OF y] scanForward_day [OF i(2,3)]
          setHours_midnight
          del: newDate.simps setHours.simps)
qed

lemma calculateMonthlyLastWeekdayNextRun_valid:
  assumes "dow \<in> set daysOfWeek" "valid_time tm" "0 \<le> now"
  shows "calculateMonthlyLastWeekdayNextRun (Num now) dow tm tz =
         Some (Num (let i = indexOf daysOfWeek dow;
                        y = YearFromTime now;
                        m = MonthFromTime now;
                        slot = lastOnOrBefore i (MakeDay y (m + 1) 0) * msPerDay + timeOfDay tm
                    in if slot \<le> now
                       then lastOnOrBefore i (MakeDay y (m + 2) 0) * msPerDay + timeOfDay tm
                       else slot))"
proof -
  note i = day_name_valid [OF assms(1)]
  note y = YearFromTime_ge_1970 [OF assms(3)]
  show ?thesis
    by (simp add: calculateMonthlyLastWeekdayNextRun_def Let_def i(1)
          parse_valid_time [OF assms(2)] newDate_valid [OF y] scanBackward_day [OF i(2,3)]
          setHours_midnight
          del: newDate.simps setHours.simps)
qed

lemma firstOnOrAfter_ge: "d \<le> firstOnOrAfter i d"
  by (simp add: firstOnOrAfter_def)

lemma lastOnOrBefore_ge: "d - 6 \<le> lastOnOrBefore i d"
proof -
  have "(weekdayOfDay d - i) mod 7 < 7" by simp
  then show ?thesis unfolding lastOnOrBefore_def by linarith
qed

lemma monthly_first_after:
  assumes "0 \<le> tod"
  shows "t < firstOnOrAfter i (MakeDay (YearFromTime t) (MonthFromTime t + 1) 1) * msPerDay + tod"
  using next_month_after [of t] firstOnOrAfter_ge [of "MakeDay (YearFromTime t) (MonthFromTime t + 1) 1" i]
  by (intro after_day assms) linarith

lemma monthly_last_after:
  assumes "0 \<le> tod"
  shows "t < lastOnOrBefore i (MakeDay (YearFromTime t) (MonthFromTime t + 2) 0) * msPerDay + tod"
proof -
  have "MakeDay (YearFromTime t) (MonthFromTime t + 2) 0 = MakeDay (YearFromTime t) (MonthFromTime t + 2) 1 - 1"
    by (subst MakeDay_date) simp
  moreover have "MakeDay (YearFromTime t) (MonthFromTime t + 1) 1 + 28 \<le> MakeDay (YearFromTime t) (MonthFromTime t + 2) 1"
    using MonthFromTime_range [of t] by (intro month_length) simp_all
  ultimately have "Day t < lastOnOrBefore i (MakeDay (YearFromTime t) (MonthFromTime t + 2) 0)"
    using next_month_after [of t]
      lastOnOrBefore_ge [of "MakeDay (YearFromTime t) (MonthFromTime t + 2) 0" i]
    by linarith
  then show ?thesis by (intro after_day assms)
qed

lemma valid_config_time: "valid_config cfg \<Longrightarrow> valid_time (orDefault (time cfg) ''09:00'')"
  by (auto simp add: valid_config_def orDefault_def valid_time_def isDigit_def split: option.splits)

lemma valid_config_day:
  "valid_config cfg \<Longrightarrow> orDefault (dayOfWeek cfg) ''monday'' \<in> set daysOfWeek"
  by (auto simp add: valid_config_def orDefault_def daysOfWeek_def split: option.splits)

lemma today_or_tomorrow:
  assumes "0 \<le> tod"
  shows "now < Day now * msPerDay + tod + msPerDay"
  using after_day [of now "Day now + 1" tod] assms by (simp add: algebra_simps)

lemma daily_next:
  assumes "valid_time tm"
  shows "\<exists>r. calculateDailyNextRun (Num now) tm tz = Num r \<and>
             (if Day now * msPerDay + timeOfDay tm \<le> now then now < r
              else r = Day now * msPerDay + timeOfDay tm)"
  using timeOfDay_range [OF assms] today_or_tomorrow [of "timeOfDay tm" now]
  by (simp add: calculateDailyNextRun_valid [OF assms])

lemma weekly_next:
  assumes "dow \<in> set daysOfWeek" "valid_time tm"
  shows "\<exists>r. calculateWeeklyNextRun (Num now) dow tm tz = Num r \<and>
             (if firstOnOrAfter (indexOf daysOfWeek dow) (Day now) * msPerDay + timeOfDay tm \<le> now
              then now < r
              else r = firstOnOrAfter (indexOf daysOfWeek dow) (Day now) * msPerDay + timeOfDay tm)"
proof -
  define i where "i = indexOf daysOfWeek dow"
  define w where "w = WeekDay now"
  define tod where "tod = timeOfDay tm"
  have i: "0 \<le> i" "i \<le> 6" unfolding i_def using day_name_valid [OF assms(1)] by simp_all
  have w: "0 \<le> w" "w \<le> 6" unfolding w_def using WeekDay_range [of now] by simp_all
  have tod: "0 \<le> tod" unfolding tod_def using timeOfDay_range [OF assms(2)] by simp
  have wd: "weekdayOfDay (Day now) = w" by (simp add: weekdayOfDay_def w_def WeekDay_def)
  have r: "calculateWeeklyNextRun (Num now) dow tm tz =
           Num ((Day now + weeklyDays i w (Day now * msPerDay + tod \<le> now)) * msPerDay + tod)"
    unfolding i_def w_def tod_def by (rule calculateWeeklyNextRun_valid [OF assms])
  consider "i < w" | "i = w" | "w < i" by linarith
  then show ?thesis
  proof cases
    case 1
    have "(i - w) mod 7 = (i - w + 7) mod 7" by simp
    also have "\<dots> = i - w + 7" using 1 i w by (intro mod_pos_pos_trivial) simp_all
    finally have m: "(i - w) mod 7 = i - w + 7" .
    have "Day now < Day now + (i - w + 7)" using i w by simp
    then have "now < (Day now + (i - w + 7)) * msPerDay + tod" using tod by (rule after_day)
    with 1 show ?thesis
      unfolding r i_def [symmetric] tod_def [symmetric]
      by (simp add: weeklyDays_def firstOnOrAfter_def wd m)
  next
    case 2
    have "now < Day now * msPerDay + tod + 7 * msPerDay"
      using today_or_tomorrow [OF tod, of now] msPerDay_pos by simp
    with 2 show ?thesis
      unfolding r i_def [symmetric] tod_def [symmetric]
      by (simp add: weeklyDays_def firstOnOrAfter_def wd algebra_simps)
  next
    case 3
    with i w have m: "(i - w) mod 7 = i - w" by simp
    have "Day now < Day now + (i - w)" using 3 by simp
    then have "now < (Day now + (i - w)) * msPerDay + tod" using tod by (rule after_day)
    with 3 show ?thesis
      unfolding r i_def [symmetric] tod_def [symmetric]
      by (simp add: weeklyDays_def firstOnOrAfter_def wd m)
  qed
qed

lemma monthly_first_next:
  assumes "dow \<in> set daysOfWeek" "valid_time tm" "0 \<le> now"
  shows "\<exists>r. calculateMonthlyFirstWeekdayNextRun (Num now) dow tm tz = Some (Num r) \<and>
             (if firstOnOrAfter (indexOf daysOfWeek dow)
                   (MakeDay (YearFromTime now) (MonthFromTime now) 1) * msPerDay + timeOfDay tm \<le> now
              then now < r
              else r = firstOnOrAfter (indexOf daysOfWeek dow)
                   (MakeDay (YearFromTime now) (MonthFromTime now) 1) * msPerDay + timeOfDay tm)"
  using timeOfDay_range [OF assms(2)]
    monthly_first_after [of "timeOfDay tm" now "indexOf daysOfWeek dow"]
  by (simp add: calculateMonthlyFirstWeekdayNextRun_valid [OF assms] Let_def)

lemma monthly_last_next:
  assumes "dow \<in> set daysOfWeek" "valid_time tm" "0 \<le> now"
  shows "\<exists>r. calculateMonthlyLastWeekdayNextRun (Num now) dow tm tz = Some (Num r) \<and>
             (if lastOnOrBefore (indexOf daysOfWeek dow)
                   (MakeDay (YearFromTime now) (MonthFromTime now + 1) 0) * msPerDay + timeOfDay tm \<le> now
              then now < r
              else r = lastOnOrBefore (indexOf daysOfWeek dow)
                   (MakeDay (YearFromTime now) (MonthFromTime now + 1) 0) * msPerDay + timeOfDay tm)"
  using timeOfDay_range [OF assms(2)]
    monthly_last_after [of "timeOfDay tm" now "indexOf daysOfWeek dow"]
  by (simp add: calculateMonthlyLastWeekdayNextRun_valid [OF assms] Let_def)

lemma calculateNextRun_cases:
  "calculateNextRun now ''daily'' cfg tz =
     Some (Inr (calculateDailyNextRun now (orDefault (time cfg) ''09:00'') tz))"
  "calculateNextRun now ''weekly'' cfg tz =
     Some (Inr (calculateWeeklyNextRun now (orDefault (dayOfWeek cfg) ''monday'')
                  (orDefault (time cfg) ''09:00'') tz))"
  "calculateNextRun now ''monthly-first-weekday'' cfg tz =
     map_option Inr (calculateMonthlyFirstWeekdayNextRun now
                       (orDefault (dayOfWeek cfg) ''monday'') (orDefault (time cfg) ''09:00'') tz)"
  "calculateNextRun now ''monthly-last-weekday'' cfg tz =
     map_option Inr (calculateMonthlyLastWeekdayNextRun now
                       (orDefault (dayOfWeek cfg) ''monday'') (orDefault (time cfg) ''09:00'') tz)"
  "calculateNextRun now ''custom'' cfg tz =
     Some (Inr (calculateDailyNextRun now (orDefault (time cfg) ''09:00'') tz))"
  by (simp_all add: calculateNextRun_def)



text \<open>On a valid type and config the next run is an instant after the clock reading.\<close>

lemma calculateNextRun_future:
  assumes "st \<in> set scheduleTypes" "valid_config cfg" "0 \<le> now"
  shows "\<exists>r. calculateNextRun (Num now) st cfg tz = Some (Inr (Num r)) \<and> now < r"
proof -
  note tm = valid_config_time [OF assms(2)]
  note dw = valid_config_day [OF assms(2)]
  have daily: "\<exists>r. calculateDailyNextRun (Num now) (orDefault (time cfg) ''09:00'') tz = Num r \<and>
      now < r"
    using daily_next [OF tm, of now tz] by (auto split: if_splits)
  have weekly: "\<exists>r. calculateWeeklyNextRun (Num now) (orDefault (dayOfWeek cfg) ''monday'')
      (orDefault (time cfg) ''09:00'') tz = Num r \<and> now < r"
    using weekly_next [OF dw tm, of now tz] by (auto split: if_splits)
  have first: "\<exists>r. calculateMonthlyFirstWeekdayNextRun (Num now)
      (orDefault (dayOfWeek cfg) ''monday'') (orDefault (time cfg) ''09:00'') tz = Some (Num r) \<and>
      now < r"
    using monthly_first_next [OF dw tm assms(3), of tz] by (auto split: if_splits)
  have last: "\<exists>r. calculateMonthlyLastWeekdayNextRun (Num now)
      (orDefault (dayOfWeek cfg) ''monday'') (orDefault (time cfg) ''09:00'') tz = Some (Num r) \<and>
      now < r"
    using monthly_last_next [OF dw tm assms(3), of tz] by (auto split: if_splits)
  from assms(1) consider "st = ''daily''" | "st = ''weekly''" | "st = ''monthly-first-weekday''"
    | "st = ''monthly-last-weekday''" | "st = ''custom''"
    unfolding scheduleTypes_def by fastforce
  then show ?thesis
  proof cases
    case 1
    with daily show ?thesis unfolding 1 calculateNextRun_cases by simp
  next
    case 2
    with weekly show ?thesis unfolding 2 calculateNextRun_cases by simp
  next
    case 3
    with first show ?thesis unfolding 3 calculateNextRun_cases by auto
  next
    case 4
    with last show ?thesis unfolding 4 calculateNextRun_cases by auto
  next
    case 5
    with daily show ?thesis unfolding 5 calculateNextRun_cases by simp
  qed
qed

section \<open>The specification's example scenarios\<close>

text \<open>
  The five calculator scenarios of the specification, on Monday 2024-01-01 with the
  example config (Monday, 09:00): a daily schedule at 08:00 runs at 09:00 the same day
  and at 09:01 the next day; a weekly schedule at 08:00 runs at 09:00 the same day and at
  09:30 the following Monday; a first-Monday schedule whose slot has passed runs on the
  first Monday of February.
\<close>

lemma scenario_daily_before:
  "calculateNextRun (Num 1704096000000) ''daily'' example_config ''UTC'' =
   Some (Inr (Num 1704099600000))"
  by code_simp

lemma scenario_daily_after:
  "calculateNextRun (Num 1704099660000) ''daily'' example_config ''UTC'' =
   Some (Inr (Num 1704186000000))"
  by code_simp

lemma scenario_weekly_before:
  "calculateNextRun (Num 1704096000000) ''weekly'' example_config ''UTC'' =
   Some (Inr (Num 1704099600000))"
  by code_simp

lemma scenario_weekly_after:
  "calculateNextRun (Num 1704101400000) ''weekly'' example_config ''UTC'' =
   Some (Inr (Num 1704704400000))"
  by code_simp

lemma scenario_monthly_first_passed:
  "calculateNextRun (Num 1704101400000) ''monthly-first-weekday'' example_config ''UTC'' =
   Some (Inr (Num 1707123600000))"
  by code_simp

section \<open>Claims about the calculator\<close>



text \<open>
  C4 as stated fails: \<open>calculateNextRun\<close> has no \<open>now\<close> parameter and reads the system
  clock, so two calls with the same three arguments differ when the clock has moved.
\<close>

theorem calculateNextRun_reads_clock:
  "calculateNextRun (Num 1704101400000) ''daily'' example_config ''UTC'' \<noteq>
   calculateNextRun (Num 1704187800000) ''daily'' example_config ''UTC''"
  by code_simp

text \<open>
  C4, amended. The instant that \<open>calculateNextRun\<close> computes from is the reading of the
  system clock that it takes itself (the first argument here). With the process's
  local zone fixed (at UTC, as throughout), two calls that read the same instant and
  agree on the schedule type and on the \<open>time\<close> and \<open>dayOfWeek\<close> fields of the config
  return the same result, whatever the \<open>timezone\<close> argument and the other config fields
  are. And the result does depend on the reading: for a valid type and config and any
  reading from 1970 on, the same arguments give another result at some later reading.
\<close>

theorem calculateNextRun_depends_on:
  "(time cfg = time cfg' \<and> dayOfWeek cfg = dayOfWeek cfg' \<longrightarrow>
      calculateNextRun now st cfg tz = calculateNextRun now st cfg' tz') \<and>
   (st \<in> set scheduleTypes \<and> valid_config cfg \<and> 0 \<le> n \<longrightarrow>
      (\<exists>n'. n < n' \<and>
            calculateNextRun (Num n') st cfg tz \<noteq> calculateNextRun (Num n) st cfg tz))"
proof (intro conjI impI)
  assume "time cfg = time cfg' \<and> dayOfWeek cfg = dayOfWeek cfg'"
  then show "calculateNextRun now st cfg tz = calculateNextRun now st cfg' tz'"
    by (simp add: calculateNextRun_def calculateDailyNextRun_def calculateWeeklyNextRun_def
          calculateMonthlyFirstWeekdayNextRun_def calculateMonthlyLastWeekdayNextRun_def)
next
  assume h: "st \<in> set scheduleTypes \<and> valid_config cfg \<and> 0 \<le> n"
  then have st: "st \<in> set scheduleTypes" and cfg: "valid_config cfg" and n: "0 \<le> n"
    by simp_all
  from calculateNextRun_future [OF st cfg n, of tz]
  obtain r where r: "calculateNextRun (Num n) st cfg tz = Some (Inr (Num r))" "n < r" by blast
  then have "0 \<le> r" using n by simp
  from calculateNextRun_future [OF st cfg this, of tz]
  obtain r' where r': "calculateNextRun (Num r) st cfg tz = Some (Inr (Num r'))" "r < r'"
    by blast
  with r show "\<exists>n'. n < n' \<and>
      calculateNextRun (Num n') st cfg tz \<noteq> calculateNextRun (Num n) st cfg tz"
    by (intro exI [of _ r]) simp
qed

theorem calculateNextRun_depends_on_witness:
  "time example_config = time (example_config\<lparr>cronExpression := Some ''0 */6 * * *''\<rparr>) \<and>
   dayOfWeek example_config = dayOfWeek (example_config\<lparr>cronExpression := Some ''0 */6 * * *''\<rparr>) \<and>
   calculateNextRun (Num 1704101400000) ''weekly'' example_config ''UTC'' =
   calculateNextRun (Num 1704101400000) ''weekly''
     (example_config\<lparr>cronExpression := Some ''0 */6 * * *''\<rparr>) ''Asia/Tokyo'' \<and>
   ''weekly'' \<in> set scheduleTypes \<and> valid_config example_config \<and> (0 :: int) \<le> 1704101400000 \<and>
   (\<exists>n'. 1704101400000 < n' \<and>
         calculateNextRun (Num n') ''weekly'' example_config ''UTC'' \<noteq>
         calculateNextRun (Num 1704101400000) ''weekly'' example_config ''UTC'')"
proof -
  let ?cfg' = "example_config\<lparr>cronExpression := Some ''0 */6 * * *''\<rparr>"
  have h1: "time example_config = time ?cfg'" "dayOfWeek example_config = dayOfWeek ?cfg'"
    by simp_all
  have h2: "''weekly'' \<in> set scheduleTypes" by code_simp
  have h3: "valid_config example_config" by code_simp
  have h4: "(0 :: int) \<le> 1704101400000" by simp
  from calculateNextRun_depends_on
    [of example_config ?cfg' "Num 1704101400000" "''weekly''" "''UTC''" "''Asia/Tokyo''"
      1704101400000]
    h1 h2 h3 h4
  show ?thesis by blast
qed



text \<open>
  C9. For schedule type \<open>custom\<close>, \<open>calculateNextRun\<close> returns what it returns for
  \<open>daily\<close> with the same config, time zone and clock reading.
\<close>

theorem custom_falls_back_to_daily:
  "calculateNextRun now ''custom'' cfg tz = calculateNextRun now ''daily'' cfg tz"
  by (simp only: calculateNextRun_cases)

section \<open>The checker: returning, and the loop without failing collaborators\<close>

lemma indexOf_range:
  assumes "d \<in> set daysOfWeek"
  shows "0 \<le> indexOf daysOfWeek d \<and> indexOf daysOfWeek d \<le> 6"
  using day_name_valid [OF assms] by simp

lemma newDate_Num: "\<exists>t. newDate (Num y) (Num m) (Num d) = Num t"
  by (simp add: Let_def)

lemma scanForward_returns:
  assumes "0 \<le> i" "i \<le> 6"
  shows "\<exists>t'. scanForward (Num i) (newDate (Num y) (Num m) (Num d)) = Some (Num t')"
proof -
  obtain t where "newDate (Num y) (Num m) (Num d) = Num t" using newDate_Num by blast
  then show ?thesis by (simp add: scanForward_closed [OF assms] del: newDate.simps)
qed

lemma scanBackward_returns:
  assumes "0 \<le> i" "i \<le> 6"
  shows "\<exists>t'. scanBackward (Num i) (newDate (Num y) (Num m) (Num d)) = Some (Num t')"
proof -
  obtain t where "newDate (Num y) (Num m) (Num d) = Num t" using newDate_Num by blast
  then show ?thesis by (simp add: scanBackward_closed [OF assms] del: newDate.simps)
qed

lemma monthly_first_returns:
  assumes "toLowerCase dow \<in> set daysOfWeek"
  shows "calculateMonthlyFirstWeekdayNextRun (Num now) dow tm tz \<noteq> None"
proof -
  note i = indexOf_range [OF assms]
  obtain a where a: "scanForward (Num (indexOf daysOfWeek (toLowerCase dow)))
      (newDate (Num (YearFromTime now)) (Num (MonthFromTime now)) (Num 1)) = Some (Num a)"
    using scanForward_returns i by blast
  obtain b where b: "scanForward (Num (indexOf daysOfWeek (toLowerCase dow)))
      (newDate (Num (YearFromTime now)) (Num (MonthFromTime now + 1)) (Num 1)) = Some (Num b)"
    using scanForward_returns i by blast
  show ?thesis
    by (simp add: calculateMonthlyFirstWeekdayNextRun_def Let_def a b del: newDate.simps)
qed

lemma monthly_last_returns:
  assumes "toLowerCase dow \<in> set daysOfWeek"
  shows "calculateMonthlyLastWeekdayNextRun (Num now) dow tm tz \<noteq> None"
proof -
  note i = indexOf_range [OF assms]
  obtain a where a: "scanBackward (Num (indexOf daysOfWeek (toLowerCase dow)))
      (newDate (Num (YearFromTime now)) (Num (MonthFromTime now + 1)) (Num 0)) = Some (Num a)"
    using scanBackward_returns i by blast
  obtain b where b: "scanBackward (Num (indexOf daysOfWeek (toLowerCase dow)))
      (newDate (Num (YearFromTime now)) (Num (MonthFromTime now + 2)) (Num 0)) = Some (Num b)"
    using scanBackward_returns i by blast
  show ?thesis
    by (simp add: calculateMonthlyLastWeekdayNextRun_def Let_def a b del: newDate.simps)
qed

lemma calculateNextRun_returns:
  assumes "nextRunReturns s"
  shows "calculateNextRun (Num now) (scheduleType s) (config s) tz \<noteq> None"
  using assms monthly_first_returns monthly_last_returns
  by (simp add: calculateNextRun_def nextRunReturns_def)

text \<open>
  With a day name that is not in \<open>daysOfWeek\<close> the target day is -1, which no weekday
  equals: the scanning loops of the monthly types never return.
\<close>

lemma getDay_not_minus_one: "\<not> js_eq (getDay d) (Num (- 1))"
proof (cases d)
  case NaN
  then show ?thesis by simp
next
  case (Num t)
  with WeekDay_range [of t] show ?thesis by auto
qed

lemma scanForward_unknown_day: "scanForward (Num (- 1)) d = None"
proof -
  have "a \<noteq> Num (- 1)" if "scanForward a d = Some y" for a y
    by (rule scanForward.raw_induct [where P = "\<lambda>a d y. a \<noteq> Num (- 1)", OF _ that])
       (auto simp add: getDay_not_minus_one split: if_splits)
  then show ?thesis by (cases "scanForward (Num (- 1)) d") auto
qed

lemma scanBackward_unknown_day: "scanBackward (Num (- 1)) d = None"
proof -
  have "a \<noteq> Num (- 1)" if "scanBackward a d = Some y" for a y
    by (rule scanBackward.raw_induct [where P = "\<lambda>a d y. a \<noteq> Num (- 1)", OF _ that])
       (auto simp add: getDay_not_minus_one split: if_splits)
  then show ?thesis by (cases "scanBackward (Num (- 1)) d") auto
qed

lemma indexOfFrom_absent: "x \<notin> set xs \<Longrightarrow> indexOfFrom i xs x = - 1"
  by (induction xs arbitrary: i) auto

lemma monthly_unknown_day_never_returns:
  assumes "toLowerCase (orDefault (dayOfWeek cfg) ''monday'') \<notin> set daysOfWeek"
  shows "calculateNextRun now ''monthly-first-weekday'' cfg tz = None"
    and "calculateNextRun now ''monthly-last-weekday'' cfg tz = None"
  using assms
  by (simp_all add: calculateNextRun_cases calculateMonthlyFirstWeekdayNextRun_def
        calculateMonthlyLastWeekdayNextRun_def indexOf_def indexOfFrom_absent
        scanForward_unknown_day scanBackward_unknown_day Let_def)

lemma nextRunReturns_exact:
  "nextRunReturns s \<longleftrightarrow>
   calculateNextRun (Num now) (scheduleType s) (config s) tz \<noteq> None"
proof
  assume "nextRunReturns s"
  then show "calculateNextRun (Num now) (scheduleType s) (config s) tz \<noteq> None"
    by (rule calculateNextRun_returns)
next
  assume r: "calculateNextRun (Num now) (scheduleType s) (config s) tz \<noteq> None"
  show "nextRunReturns s"
  proof (rule ccontr)
    assume "\<not> nextRunReturns s"
    then have "scheduleType s = ''monthly-first-weekday'' \<or>
               scheduleType s = ''monthly-last-weekday''"
      and "toLowerCase (orDefault (dayOfWeek (config s)) ''monday'') \<notin> set daysOfWeek"
      by (auto simp add: nextRunReturns_def)
    with monthly_unknown_day_never_returns [of "config s" "Num now" tz] r
    show False by auto
  qed
qed

lemma advanceSchedule_returns:
  assumes "nextRunReturns s"
  shows "advanceSchedule currentTime now s \<noteq> None"
  using calculateNextRun_returns [OF assms, of now "timezone s"]
  by (auto simp add: advanceSchedule_def Let_def split: option.splits sum.splits jsnum.splits)

lemma advanceSchedule_id:
  "advanceSchedule currentTime now s = Some (Inl (err, s')) \<Longrightarrow>
     scheduleId s' = scheduleId s \<and> status s' = status s"
  "advanceSchedule currentTime now s = Some (Inr s'') \<Longrightarrow>
     scheduleId s'' = scheduleId s \<and> status s'' = status s"
  by (auto simp add: advanceSchedule_def Let_def split: option.splits sum.splits jsnum.splits)

lemma emit_ok:
  "fault w (calls w) (EmitEvent ev) = None \<Longrightarrow>
   emit ev w = (Inr (), w\<lparr>calls := Suc (calls w), emitted := emitted w @ [ev]\<rparr>)"
  by (simp add: emit_def)

lemma state_set_ok:
  "fault w (calls w) (SetKey k v) = None \<Longrightarrow>
   state_set k v w =
     (Inr (), w\<lparr>calls := Suc (calls w), store := AList.update k v (store w),
                 writes := writes w @ [(k, v)]\<rparr>)"
  by (simp add: state_set_def)









lemma trySchedule_frame:
  assumes "trySchedule currentTime s w = Some (r, w')"
  shows "fault w' = fault w \<and> clock w' = clock w"
  using assms
  by (auto simp add: trySchedule_def logger_info_def emit_def state_set_def new_Date_def Let_def
        split: if_splits option.splits sum.splits prod.splits)

lemma trySchedule_throws_id:
  assumes "trySchedule currentTime s w = Some (Inl (err, s'), w')"
  shows "scheduleId s' = scheduleId s"
  using assms advanceSchedule_id
  by (auto simp add: trySchedule_def logger_info_def emit_def state_set_def new_Date_def Let_def
        split: if_splits option.splits sum.splits prod.splits)

lemma trySchedule_throws_store:
  assumes "trySchedule currentTime s w = Some (Inl (err, s'), w')"
  shows "store w' = store w \<and> writes w' = writes w \<and> deletes w' = deletes w"
  using assms
  by (auto simp add: trySchedule_def logger_info_def emit_def state_set_def new_Date_def Let_def
        split: if_splits option.splits sum.splits prod.splits)

lemma trySchedule_returns:
  assumes "isDue currentTime s \<longrightarrow> nextRunReturns s"
  shows "trySchedule currentTime s w \<noteq> None"
proof (cases "isDue currentTime s")
  case False
  then show ?thesis by (auto simp add: trySchedule_def isDue_def Let_def)
next
  case True
  with assms have adv: "advanceSchedule currentTime now s \<noteq> None" for now
    by (simp add: advanceSchedule_returns)
  obtain e w3 where e: "emit (triggerOf s)
      (logger_info ''Schedule is due, triggering file generation'' []
         (logger_info ''Checking schedule'' [] w)) = (e, w3)"
    by (cases "emit (triggerOf s)
      (logger_info ''Schedule is due, triggering file generation'' []
         (logger_info ''Checking schedule'' [] w))")
  obtain r where r: "advanceSchedule currentTime (clock w3 (reads w3)) s = Some r"
    using adv by blast
  from True show ?thesis
    by (simp add: trySchedule_def isDue_def Let_def e r new_Date_def
          split: prod.splits sum.splits)
qed

lemma processSchedule_quarantine:
  assumes "quarantineOK w" "isDue currentTime s \<longrightarrow> nextRunReturns s"
  shows "\<exists>r w1. processSchedule currentTime s w = Some (Inr r, w1) \<and> quarantineOK w1 \<and>
           (case trySchedule currentTime s w of
              None \<Rightarrow> False
            | Some (Inr r0, w0) \<Rightarrow> r = r0 \<and> w1 = w0
            | Some (Inl (err, s'), w0) \<Rightarrow>
                r = False \<and> scheduleId s' = scheduleId s \<and>
                store w1 =
                  AList.update (scheduleId s)
                    (s'\<lparr>status := ''failed'', lastError := Some err,
                        updatedAt := Some (Num (clock w0 (reads w0)))\<rparr>) (store w0) \<and>
                writes w1 = writes w0 @
                  [(scheduleId s,
                    s'\<lparr>status := ''failed'', lastError := Some err,
                        updatedAt := Some (Num (clock w0 (reads w0)))\<rparr>)] \<and>
                emitted w1 = emitted w0 \<and>
                logs w1 = logs w0 @ [LogError ''Error processing schedule'' err])"
proof -
  obtain res w0 where t: "trySchedule currentTime s w = Some (res, w0)"
    using trySchedule_returns [OF assms(2), of w] by (cases "trySchedule currentTime s w") auto
  from trySchedule_frame [OF t] assms(1) have q0: "quarantineOK w0"
    by (simp add: quarantineOK_def)
  show ?thesis
  proof (cases res)
    case (Inr r0)
    with t q0 show ?thesis by (simp add: processSchedule_def)
  next
    case (Inl p)
    obtain err s' where p: "p = (err, s')" by (cases p)
    have id: "scheduleId s' = scheduleId s"
      using trySchedule_throws_id t Inl p by blast
    from q0 have ok: "fault w0 n (SetKey k (s'\<lparr>status := ''failed'', lastError := Some err,
        updatedAt := u\<rparr>)) = None" for n k u
      by (simp add: quarantineOK_def)
    from q0 show ?thesis
      by (auto simp add: processSchedule_def t Inl p id logger_error_def new_Date_def
            state_set_def ok Let_def quarantineOK_def)
  qed
qed

lemma checkSchedules_quarantine:
  assumes "quarantineOK w" "\<forall>s \<in> set ss. isDue currentTime s \<longrightarrow> nextRunReturns s"
  shows "\<exists>t' w'. checkSchedules currentTime ss c t w = Some (Inr (c + length ss, t'), w')"
  using assms
proof (induction ss arbitrary: c t w)
  case Nil
  then show ?case by simp
next
  case (Cons s ss)
  from Cons.prems(2) have s: "isDue currentTime s \<longrightarrow> nextRunReturns s" by simp
  from processSchedule_quarantine [OF Cons.prems(1) s]
  obtain r w1 where p: "processSchedule currentTime s w = Some (Inr r, w1)" "quarantineOK w1"
    by blast
  from Cons.prems(2) have rest: "\<forall>s \<in> set ss. isDue currentTime s \<longrightarrow> nextRunReturns s" by simp
  from Cons.IH [OF p(2) rest, of "Suc c" "if r then Suc t else t"] p(1)
  show ?case by auto
qed

section \<open>The pruning pass\<close>

lemma cleanupLoop_cases:
  "cleanupLoop tda (s # ss) n w =
     (if prunable (tda + 30 * msPerDay) s
      then (case state_delete (scheduleId s) w of
              (Inl err, w') \<Rightarrow> (Inl err, w')
            | (Inr _, w') \<Rightarrow>
                cleanupLoop tda ss (Suc n) (logger_info ''Cleaned up old failed schedule'' [] w'))
      else cleanupLoop tda ss n w)"
  by (auto simp add: prunable_def split: option.splits jsnum.splits)

lemma cleanupLoop_Inr:
  assumes "cleanupLoop tda ss n w = (Inr n', w')"
  shows "store w' =
           filter (\<lambda>(k, v). k \<notin> scheduleId ` {s \<in> set ss. prunable (tda + 30 * msPerDay) s})
             (store w) \<and>
         deletes w' =
           deletes w @ map scheduleId (filter (prunable (tda + 30 * msPerDay)) ss)"
  using assms
proof (induction ss arbitrary: n w)
  case Nil
  then show ?case by simp
next
  case (Cons s ss)
  show ?case
  proof (cases "prunable (tda + 30 * msPerDay) s")
    case False
    with Cons.prems have "cleanupLoop tda ss n w = (Inr n', w')"
      by (simp only: cleanupLoop_cases if_False)
    moreover from False have "{x \<in> set (s # ss). prunable (tda + 30 * msPerDay) x} =
        {x \<in> set ss. prunable (tda + 30 * msPerDay) x}" by auto
    ultimately show ?thesis using Cons.IH False by simp
  next
    case True
    then have set_eq: "{x \<in> set (s # ss). prunable (tda + 30 * msPerDay) x} =
        insert s {x \<in> set ss. prunable (tda + 30 * msPerDay) x}" by auto
    from True Cons.prems have run: "(case state_delete (scheduleId s) w of
              (Inl err, w') \<Rightarrow> (Inl err, w')
            | (Inr _, w') \<Rightarrow>
                cleanupLoop tda ss (Suc n) (logger_info ''Cleaned up old failed schedule'' [] w'))
         = (Inr n', w')"
      by (simp only: cleanupLoop_cases if_True)
    then have ok: "fault w (calls w) (DeleteKey (scheduleId s)) = None"
      by (auto simp add: state_delete_def Let_def split: option.splits)
    define w1 where "w1 = logger_info ''Cleaned up old failed schedule'' []
       (w\<lparr>calls := Suc (calls w), store := AList.delete (scheduleId s) (store w),
          deletes := deletes w @ [scheduleId s]\<rparr>)"
    from run ok have "cleanupLoop tda ss (Suc n) w1 = (Inr n', w')"
      by (simp add: state_delete_def Let_def w1_def)
    from Cons.IH [OF this] True show ?thesis
      unfolding set_eq
      by (auto simp add: w1_def logger_info_def AList.delete_eq intro!: filter_cong)
  qed
qed

lemma cleanupLoop_noFaults:
  assumes "noFaults w"
  shows "\<exists>n' w'. cleanupLoop tda ss n w = (Inr n', w')"
  using assms
proof (induction ss arbitrary: n w)
  case Nil
  then show ?case by simp
next
  case (Cons s ss)
  define w1 where "w1 = logger_info ''Cleaned up old failed schedule'' []
       (w\<lparr>calls := Suc (calls w), store := AList.delete (scheduleId s) (store w),
          deletes := deletes w @ [scheduleId s]\<rparr>)"
  from Cons.prems have nf1: "noFaults w1" by (simp add: w1_def noFaults_def logger_info_def)
  from Cons.prems have del: "state_delete (scheduleId s) w =
      (Inr (), w\<lparr>calls := Suc (calls w), store := AList.delete (scheduleId s) (store w),
          deletes := deletes w @ [scheduleId s]\<rparr>)"
    by (simp add: state_delete_def noFaults_def)
  show ?case
  proof (cases "prunable (tda + 30 * msPerDay) s")
    case False
    with Cons.IH [OF Cons.prems, of n] show ?thesis
      by (simp only: cleanupLoop_cases if_False)
  next
    case True
    have "cleanupLoop tda (s # ss) n w = cleanupLoop tda ss (Suc n) w1"
      using True by (simp only: cleanupLoop_cases if_True del w1_def) simp
    with Cons.IH [OF nf1, of "Suc n"] show ?thesis by simp
  qed
qed

lemma cleanupLoop_keeps:
  assumes "cleanupLoop tda ss n w = (r, w')" "(k, v) \<in> set (store w)"
    and "k \<notin> scheduleId ` {s \<in> set ss. prunable (tda + 30 * msPerDay) s}"
  shows "(k, v) \<in> set (store w')"
  using assms
proof (induction ss arbitrary: n w)
  case Nil
  then show ?case by simp
next
  case (Cons s ss)
  from Cons.prems(3) have rest: "k \<notin> scheduleId ` {s \<in> set ss. prunable (tda + 30 * msPerDay) s}"
    by auto
  show ?case
  proof (cases "prunable (tda + 30 * msPerDay) s")
    case False
    with Cons.prems(1) have "cleanupLoop tda ss n w = (r, w')"
      by (simp only: cleanupLoop_cases if_False)
    from Cons.IH [OF this Cons.prems(2) rest] show ?thesis .
  next
    case True
    with Cons.prems(3) have ne: "k \<noteq> scheduleId s" by auto
    from True Cons.prems(1) have run: "(case state_delete (scheduleId s) w of
              (Inl err, w') \<Rightarrow> (Inl err, w')
            | (Inr _, w') \<Rightarrow>
                cleanupLoop tda ss (Suc n) (logger_info ''Cleaned up old failed schedule'' [] w'))
         = (r, w')"
      by (simp only: cleanupLoop_cases if_True)
    show ?thesis
    proof (cases "fault w (calls w) (DeleteKey (scheduleId s))")
      case (Some err)
      with run have "store w' = store w" by (auto simp add: state_delete_def Let_def)
      with Cons.prems(2) show ?thesis by simp
    next
      case None
      define w1 where "w1 = logger_info ''Cleaned up old failed schedule'' []
         (w\<lparr>calls := Suc (calls w), store := AList.delete (scheduleId s) (store w),
            deletes := deletes w @ [scheduleId s]\<rparr>)"
      from run None have run1: "cleanupLoop tda ss (Suc n) w1 = (r, w')"
        by (simp add: state_delete_def Let_def w1_def)
      from Cons.prems(2) ne have "(k, v) \<in> set (store w1)"
        by (simp add: w1_def logger_info_def AList.delete_eq)
      from Cons.IH [OF run1 this rest] show ?thesis .
    qed
  qed
qed

lemma wf_store_key:
  assumes "wf_store st" "(k, v) \<in> set st"
  shows "k \<in> scheduleId ` {s \<in> set (map snd st). P s} \<longleftrightarrow> P v"
proof
  assume "P v"
  with assms show "k \<in> scheduleId ` {s \<in> set (map snd st). P s}"
    by (force simp add: wf_store_def)
next
  assume "k \<in> scheduleId ` {s \<in> set (map snd st). P s}"
  then obtain k' v' where v': "(k', v') \<in> set st" "P v'" "k = scheduleId v'" by auto
  with assms(1) have "k' = k" by (auto simp add: wf_store_def)
  with v'(1) assms have "v' = v" by (auto simp add: wf_store_def dest: eq_key_imp_eq_value)
  with v'(2) show "P v" by simp
qed

lemma wf_store_filter:
  assumes "wf_store st"
  shows "filter (\<lambda>(k, v). k \<notin> scheduleId ` {s \<in> set (map snd st). P s}) st =
         filter (\<lambda>(k, v). \<not> P v) st"
proof (intro filter_cong refl)
  fix x assume x: "x \<in> set st"
  obtain k v where kv: "x = (k, v)" by (cases x)
  with x wf_store_key [OF assms, of k v P]
  show "(case x of (k, v) \<Rightarrow> k \<notin> scheduleId ` {s \<in> set (map snd st). P s}) =
        (case x of (k, v) \<Rightarrow> \<not> P v)" by simp
qed

lemma wf_store_ids:
  assumes "wf_store st"
  shows "map scheduleId (filter P (map snd st)) = map fst (filter (\<lambda>(k, v). P v) st)"
proof -
  from assms have "\<forall>(k, v) \<in> set st. k = scheduleId v" by (simp add: wf_store_def)
  then show ?thesis by (induction st) auto
qed

lemma cleanupOldSchedules_fault:
  assumes "fault w (calls w) GetGroup = Some err"
  shows "cleanupOldSchedules w =
         logger_warn ''Error during cleanup'' err (w\<lparr>calls := Suc (calls w)\<rparr>)"
  using assms by (simp add: cleanupOldSchedules_def state_getGroup_def)

lemma cleanupOldSchedules_loop:
  assumes "fault w (calls w) GetGroup = None"
  shows "cleanupOldSchedules w =
         (case cleanupLoop (clock w (reads w) - 30 * msPerDay) (map snd (store w)) 0
                 (w\<lparr>calls := Suc (calls w), reads := Suc (reads w)\<rparr>) of
            (Inl err, w3) \<Rightarrow> logger_warn ''Error during cleanup'' err w3
          | (Inr cleaned, w3) \<Rightarrow>
              if 0 < cleaned
              then logger_info ''Cleaned up N old schedules'' [int cleaned] w3
              else w3)"
  using assms
  by (simp add: cleanupOldSchedules_def state_getGroup_def new_Date_def msPerDay_def)

lemma cleanupOldSchedules_keeps:
  assumes "wf_store (store w)" "(k, v) \<in> set (store w)" "\<not> prunable (clock w (reads w)) v"
  shows "(k, v) \<in> set (store (cleanupOldSchedules w))"
proof (cases "fault w (calls w) GetGroup")
  case (Some err)
  with assms(2) show ?thesis by (simp add: cleanupOldSchedules_fault logger_warn_def)
next
  case None
  define w2 where "w2 = w\<lparr>calls := Suc (calls w), reads := Suc (reads w)\<rparr>"
  define tda where "tda = clock w (reads w) - 30 * msPerDay"
  obtain r w3 where run: "cleanupLoop tda (map snd (store w)) 0 w2 = (r, w3)"
    by (cases "cleanupLoop tda (map snd (store w)) 0 w2")
  have "k \<notin> scheduleId ` {s \<in> set (map snd (store w)). prunable (tda + 30 * msPerDay) s}"
    using wf_store_key [OF assms(1,2)] assms(3) by (simp add: tda_def)
  moreover have "(k, v) \<in> set (store w2)" using assms(2) by (simp add: w2_def)
  ultimately have "(k, v) \<in> set (store w3)" using run cleanupLoop_keeps by blast
  then show ?thesis
    using run
    by (simp add: cleanupOldSchedules_loop [OF None] tda_def [symmetric] w2_def [symmetric]
          logger_warn_def logger_info_def split: sum.splits)
qed

lemma cleanupOldSchedules_complete_or_warned:
  assumes "wf_store (store w)"
  shows "(store (cleanupOldSchedules w) =
            filter (\<lambda>(k, v). \<not> prunable (clock w (reads w)) v) (store w) \<and>
          deletes (cleanupOldSchedules w) =
            deletes w @ map fst (filter (\<lambda>(k, v). prunable (clock w (reads w)) v) (store w))) \<or>
         (\<exists>err. last (logs (cleanupOldSchedules w)) = LogWarn ''Error during cleanup'' err)"
proof (cases "fault w (calls w) GetGroup")
  case (Some err)
  then show ?thesis by (simp add: cleanupOldSchedules_fault logger_warn_def)
next
  case None
  define w2 where "w2 = w\<lparr>calls := Suc (calls w), reads := Suc (reads w)\<rparr>"
  define tda where "tda = clock w (reads w) - 30 * msPerDay"
  obtain r w3 where run: "cleanupLoop tda (map snd (store w)) 0 w2 = (r, w3)"
    by (cases "cleanupLoop tda (map snd (store w)) 0 w2")
  show ?thesis
  proof (cases r)
    case (Inl err)
    with run show ?thesis
      by (simp add: cleanupOldSchedules_loop [OF None] tda_def [symmetric] w2_def [symmetric]
            logger_warn_def)
  next
    case (Inr n)
    with run have "cleanupLoop tda (map snd (store w)) 0 w2 = (Inr n, w3)" by simp
    from cleanupLoop_Inr [OF this]
    have "store w3 = filter (\<lambda>(k, v). \<not> prunable (clock w (reads w)) v) (store w)"
      and "deletes w3 =
        deletes w @ map fst (filter (\<lambda>(k, v). prunable (clock w (reads w)) v) (store w))"
      using wf_store_filter [OF assms, of "prunable (clock w (reads w))"]
        wf_store_ids [OF assms, of "prunable (clock w (reads w))"]
      by (simp_all add: tda_def w2_def)
    with run Inr show ?thesis
      by (simp add: cleanupOldSchedules_loop [OF None] tda_def [symmetric] w2_def [symmetric]
            logger_info_def)
  qed
qed

lemma cleanupOldSchedules_noFaults:
  assumes "wf_store (store w)" "noFaults w"
  shows "store (cleanupOldSchedules w) =
           filter (\<lambda>(k, v). \<not> prunable (clock w (reads w)) v) (store w) \<and>
         deletes (cleanupOldSchedules w) =
           deletes w @ map fst (filter (\<lambda>(k, v). prunable (clock w (reads w)) v) (store w))"
proof -
  from assms(2) have None: "fault w (calls w) GetGroup = None" by (simp add: noFaults_def)
  define w2 where "w2 = w\<lparr>calls := Suc (calls w), reads := Suc (reads w)\<rparr>"
  define tda where "tda = clock w (reads w) - 30 * msPerDay"
  from assms(2) have "noFaults w2" by (simp add: w2_def noFaults_def)
  then obtain n w3 where run: "cleanupLoop tda (map snd (store w)) 0 w2 = (Inr n, w3)"
    using cleanupLoop_noFaults by blast
  from cleanupLoop_Inr [OF this]
  have "store w3 = filter (\<lambda>(k, v). \<not> prunable (clock w (reads w)) v) (store w)"
    and "deletes w3 =
      deletes w @ map fst (filter (\<lambda>(k, v). prunable (clock w (reads w)) v) (store w))"
    using wf_store_filter [OF assms(1), of "prunable (clock w (reads w))"]
      wf_store_ids [OF assms(1), of "prunable (clock w (reads w))"]
    by (simp_all add: tda_def w2_def)
  with run show ?thesis
    by (simp add: cleanupOldSchedules_loop [OF None] tda_def [symmetric] w2_def [symmetric]
          logger_info_def)
qed

section \<open>Advancing a due record\<close>

text \<open>
  The count's increment is exact up to 2^53; at 2^53 the count stays where it is.
\<close>

lemma js_plus_one_exact: "\<bar>n + 1\<bar> \<le> 2 ^ 53 \<Longrightarrow> js_plus_one n = n + 1"
  by (simp add: js_plus_one_def Let_def)

lemma js_plus_one_limit: "js_plus_one (2 ^ 53) = 2 ^ 53"
  by (simp add: js_plus_one_def Let_def)

lemma advanceSchedule_valid:
  assumes "scheduleType s \<in> set scheduleTypes" "valid_config (config s)" "0 \<le> now"
    and "- (2 ^ 53) \<le> countOf s" "countOf s < 2 ^ 53"
  shows "\<exists>r. advanceSchedule currentTime now s =
               Some (Inr (s\<lparr>lastRun := Some (Num currentTime), nextRun := Num r,
                              executionCount := Some (countOf s + 1),
                              updatedAt := Some (Num currentTime)\<rparr>)) \<and>
             now < r"
proof -
  from calculateNextRun_future [OF assms(1-3), of "timezone s"]
  obtain r where "calculateNextRun (Num now) (scheduleType s) (config s) (timezone s) =
      Some (Inr (Num r))" "now < r" by blast
  moreover from assms(4,5) have "js_plus_one (countOf s) = countOf s + 1"
    by (intro js_plus_one_exact) simp
  ultimately show ?thesis
    by (intro exI [of _ r]) (simp add: advanceSchedule_def countOf_def Let_def)
qed

lemma dispatch_persists_advance:
  assumes "isDue currentTime s"
    and "fault w (calls w) (EmitEvent (triggerOf s)) = None"
    and "advanceSchedule currentTime (clock w (reads w)) s = Some (Inr s')"
    and "fault w (Suc (calls w)) (SetKey (scheduleId s') s') = None"
  shows "\<exists>w'. trySchedule currentTime s w = Some (Inr True, w') \<and>
           store w' = AList.update (scheduleId s') s' (store w) \<and>
           writes w' = writes w @ [(scheduleId s', s')]"
  using assms
  by (simp add: trySchedule_def isDue_def Let_def logger_info_def emit_def new_Date_def
        state_set_def)

lemma wf_store_distinct_ids:
  assumes "wf_store st"
  shows "distinct (map scheduleId (map snd st))"
proof -
  from assms have "\<forall>(k, v) \<in> set st. k = scheduleId v" by (simp add: wf_store_def)
  then have "map scheduleId (map snd st) = map fst st" by (induction st) auto
  moreover from assms have "distinct (map fst st)" by (simp add: wf_store_def)
  ultimately show ?thesis by (simp only:)
qed

section \<open>One poll after another\<close>

text \<open>
  An iteration of the loop touches the store at the key of its own record only, so the
  record found under a key when the loop has ended is the one that the iteration for
  that key left there.
\<close>

lemma advanceSchedule_same:
  "advanceSchedule currentTime now s = Some (Inl (err, s')) \<Longrightarrow>
     scheduleType s' = scheduleType s \<and> config s' = config s"
  "advanceSchedule currentTime now s = Some (Inr s'') \<Longrightarrow>
     scheduleType s'' = scheduleType s \<and> config s'' = config s"
  by (auto simp add: advanceSchedule_def Let_def split: option.splits sum.splits jsnum.splits)

lemma trySchedule_reads:
  assumes "trySchedule currentTime s w = Some (r, w')"
  shows "reads w \<le> reads w'"
  using assms
  by (auto simp add: trySchedule_def logger_info_def emit_def state_set_def new_Date_def Let_def
        split: if_splits option.splits sum.splits prod.splits)

lemma trySchedule_throws_same:
  assumes "trySchedule currentTime s w = Some (Inl (err, s'), w')"
  shows "scheduleType s' = scheduleType s \<and> config s' = config s"
  using assms advanceSchedule_same
  by (auto simp add: trySchedule_def logger_info_def emit_def state_set_def new_Date_def Let_def
        split: if_splits option.splits sum.splits prod.splits)

lemma trySchedule_completes_write:
  assumes "trySchedule currentTime s w = Some (Inr t, w')"
  shows "store w' = store w \<or>
         (\<exists>now s'. advanceSchedule currentTime now s = Some (Inr s') \<and>
                   store w' = AList.update (scheduleId s') s' (store w))"
  using assms
  by (auto simp add: trySchedule_def logger_info_def emit_def state_set_def new_Date_def Let_def
        split: if_splits option.splits sum.splits prod.splits) blast

lemma set_update_cases:
  "x \<in> set (AList.update k v st) \<Longrightarrow> x = (k, v) \<or> x \<in> set st"
  by (induction st) (auto split: if_splits)

lemma rewrittenI:
  "scheduleId v = scheduleId s \<Longrightarrow> scheduleType v = scheduleType s \<Longrightarrow> config v = config s \<Longrightarrow>
   st' = AList.update (scheduleId s) v st \<Longrightarrow> rewritten s st st'"
  unfolding rewritten_def by blast

lemma trySchedule_completes_store:
  assumes "trySchedule currentTime s w = Some (Inr t, w')"
  shows "rewritten s (store w) (store w')"
proof -
  from trySchedule_completes_write [OF assms]
  consider "store w' = store w"
    | now s' where "advanceSchedule currentTime now s = Some (Inr s')"
        "store w' = AList.update (scheduleId s') s' (store w)"
    by blast
  then show ?thesis
  proof cases
    case 1
    then show ?thesis by (simp add: rewritten_def)
  next
    case 2
    from advanceSchedule_id(2) [OF 2(1)] advanceSchedule_same(2) [OF 2(1)] 2(2)
    show ?thesis by (intro rewrittenI [of s']) simp_all
  qed
qed

lemma processSchedule_store:
  assumes "processSchedule currentTime s w = Some (r, w')"
  shows "fault w' = fault w \<and> clock w' = clock w \<and> reads w \<le> reads w' \<and>
         rewritten s (store w) (store w')"
proof -
  from assms obtain res w0 where t: "trySchedule currentTime s w = Some (res, w0)"
    by (cases "trySchedule currentTime s w") (auto simp add: processSchedule_def)
  note f0 = trySchedule_frame [OF t] trySchedule_reads [OF t]
  show ?thesis
  proof (cases res)
    case (Inr t0)
    with assms t have "w' = w0" by (simp add: processSchedule_def)
    with f0 trySchedule_completes_store [of currentTime s w t0 w0] t Inr show ?thesis by simp
  next
    case (Inl p)
    obtain err s' where p: "p = (err, s')" by (cases p)
    note thrown = t [unfolded Inl p]
    note id = trySchedule_throws_id [OF thrown]
    note same = trySchedule_throws_same [OF thrown]
    note st = trySchedule_throws_store [OF thrown]
    define v where "v = s'\<lparr>status := ''failed'', lastError := Some err,
                        updatedAt := Some (Num (clock w0 (reads w0)))\<rparr>"
    have v: "scheduleId v = scheduleId s" "scheduleType v = scheduleType s" "config v = config s"
      using id same by (simp_all add: v_def)
    from assms have w': "fault w' = fault w0" "clock w' = clock w0" "reads w0 \<le> reads w'"
      "store w' = store w0 \<or> store w' = AList.update (scheduleId s) v (store w0)"
      by (auto simp add: processSchedule_def thrown logger_error_def new_Date_def state_set_def
            Let_def id v_def split: option.splits)
    from w'(4) st v have "rewritten s (store w) (store w')"
      by (auto simp add: rewritten_def)
    with w'(1-3) f0 show ?thesis by simp
  qed
qed

lemma rewritten_other_key:
  assumes "rewritten s st st'" "k \<noteq> scheduleId s"
  shows "map_of st' k = map_of st k"
  using assms by (auto simp add: rewritten_def AList.update_conv')

lemma rewritten_wf_store:
  assumes "rewritten s st st'" "wf_store st"
  shows "wf_store st'"
proof -
  have "wf_store (AList.update (scheduleId s) v st)" if "scheduleId v = scheduleId s" for v
  proof -
    from assms(2) that show ?thesis
      by (auto simp add: wf_store_def AList.distinct_update dest!: set_update_cases)
  qed
  with assms show ?thesis unfolding rewritten_def by (elim disjE exE conjE) simp_all
qed

lemma rewritten_returns:
  assumes "rewritten s st st'" "nextRunReturns s" "\<forall>(k, v) \<in> set st. nextRunReturns v"
  shows "\<forall>(k, v) \<in> set st'. nextRunReturns v"
proof -
  have "\<forall>(k', v') \<in> set (AList.update (scheduleId s) v st). nextRunReturns v'"
    if "scheduleType v = scheduleType s" "config v = config s" for v
  proof -
    from that assms(2) have "nextRunReturns v" by (simp add: nextRunReturns_def)
    with assms(3) show ?thesis by (auto dest!: set_update_cases)
  qed
  with assms(1,3) show ?thesis unfolding rewritten_def by (elim disjE exE conjE) simp_all
qed

lemma processSchedule_dispatch:
  assumes "noFaults w" "isDue currentTime s"
    and "scheduleType s \<in> set scheduleTypes" "valid_config (config s)"
    and "0 \<le> clock w (reads w)"
    and "- (2 ^ 53) \<le> countOf s" "countOf s < 2 ^ 53"
  shows "\<exists>r w'. processSchedule currentTime s w = Some (Inr True, w') \<and>
           clock w (reads w) < r \<and>
           store w' =
             AList.update (scheduleId s)
               (s\<lparr>lastRun := Some (Num currentTime), nextRun := Num r,
                   executionCount := Some (countOf s + 1),
                   updatedAt := Some (Num currentTime)\<rparr>) (store w)"
proof -
  from advanceSchedule_valid [OF assms(3-7), of currentTime]
  obtain r where adv: "advanceSchedule currentTime (clock w (reads w)) s =
      Some (Inr (s\<lparr>lastRun := Some (Num currentTime), nextRun := Num r,
                      executionCount := Some (countOf s + 1),
                      updatedAt := Some (Num currentTime)\<rparr>))"
    and r: "clock w (reads w) < r" by blast
  from assms(1) have nf: "\<And>n c. fault w n c = None" by (simp add: noFaults_def)
  from dispatch_persists_advance [OF assms(2) nf adv nf]
  obtain w' where "trySchedule currentTime s w = Some (Inr True, w')"
    "store w' = AList.update (scheduleId s)
       (s\<lparr>lastRun := Some (Num currentTime), nextRun := Num r,
           executionCount := Some (countOf s + 1),
           updatedAt := Some (Num currentTime)\<rparr>) (store w)"
    by auto
  with r show ?thesis by (auto simp add: processSchedule_def)
qed

lemma checkSchedules_isolated:
  assumes "noFaults w" "\<forall>x \<in> set ss. nextRunReturns x" "distinct (map scheduleId ss)"
  shows "\<exists>t' w'. checkSchedules currentTime ss c t w = Some (Inr (c + length ss, t'), w') \<and>
           fault w' = fault w \<and> clock w' = clock w \<and> reads w \<le> reads w' \<and>
           (\<forall>k. k \<notin> scheduleId ` set ss \<longrightarrow> map_of (store w') k = map_of (store w) k) \<and>
           (\<forall>s \<in> set ss. \<exists>w1 r w2.
              fault w1 = fault w \<and> clock w1 = clock w \<and> reads w \<le> reads w1 \<and>
              processSchedule currentTime s w1 = Some (r, w2) \<and>
              map_of (store w') (scheduleId s) = map_of (store w2) (scheduleId s))"
  using assms
proof (induction ss arbitrary: c t w)
  case Nil
  then show ?case by simp
next
  case (Cons s ss)
  from Cons.prems(1) have q: "quarantineOK w" by (simp add: noFaults_def quarantineOK_def)
  from Cons.prems(2) have "isDue currentTime s \<longrightarrow> nextRunReturns s" by simp
  from processSchedule_quarantine [OF q this]
  obtain t1 w1 where p: "processSchedule currentTime s w = Some (Inr t1, w1)" by blast
  from processSchedule_store [OF p]
  have f1: "fault w1 = fault w" "clock w1 = clock w" "reads w \<le> reads w1"
    and rw: "rewritten s (store w) (store w1)" by simp_all
  from Cons.prems(1) f1(1) have nf1: "noFaults w1" by (simp add: noFaults_def)
  from Cons.prems(2) have rest: "\<forall>x \<in> set ss. nextRunReturns x" by simp
  from Cons.prems(3) have dist: "distinct (map scheduleId ss)"
    and fresh: "scheduleId s \<notin> scheduleId ` set ss" by simp_all
  from Cons.IH [OF nf1 rest dist, of "Suc c" "if t1 then Suc t else t"]
  obtain t' w' where run:
    "checkSchedules currentTime ss (Suc c) (if t1 then Suc t else t) w1 =
       Some (Inr (Suc c + length ss, t'), w')"
    and f': "fault w' = fault w1" "clock w' = clock w1" "reads w1 \<le> reads w'"
    and other: "\<And>k. k \<notin> scheduleId ` set ss \<Longrightarrow> map_of (store w') k = map_of (store w1) k"
    and each: "\<And>x. x \<in> set ss \<Longrightarrow> \<exists>w1' r w2.
              fault w1' = fault w1 \<and> clock w1' = clock w1 \<and> reads w1 \<le> reads w1' \<and>
              processSchedule currentTime x w1' = Some (r, w2) \<and>
              map_of (store w') (scheduleId x) = map_of (store w2) (scheduleId x)"
    by blast
  have run': "checkSchedules currentTime (s # ss) c t w =
      Some (Inr (c + length (s # ss), t'), w')"
    using p run by simp
  have other': "map_of (store w') k = map_of (store w) k" if "k \<notin> scheduleId ` set (s # ss)" for k
  proof -
    from that have "k \<notin> scheduleId ` set ss" "k \<noteq> scheduleId s" by auto
    with other [of k] rewritten_other_key [OF rw] show ?thesis by simp
  qed
  have each': "\<exists>w1' r w2.
              fault w1' = fault w \<and> clock w1' = clock w \<and> reads w \<le> reads w1' \<and>
              processSchedule currentTime x w1' = Some (r, w2) \<and>
              map_of (store w') (scheduleId x) = map_of (store w2) (scheduleId x)"
    if "x \<in> set (s # ss)" for x
  proof (cases "x = s")
    case True
    from other [OF fresh] p show ?thesis
      unfolding True by (intro exI [of _ w] exI [of _ "Inr t1"] exI [of _ w1]) simp
  next
    case False
    with that have "x \<in> set ss" by simp
    from each [OF this] f1 show ?thesis by (metis le_trans)
  qed
  from run' f' f1 other' each' show ?case
    by (intro exI [of _ t'] exI [of _ w']) (simp del: checkSchedules.simps)
qed

lemma checkSchedules_inv:
  assumes "checkSchedules currentTime ss c t w = Some (r, w')"
    and "wf_store (store w)" "\<forall>(k, v) \<in> set (store w). nextRunReturns v"
    and "\<forall>x \<in> set ss. nextRunReturns x"
  shows "wf_store (store w') \<and> (\<forall>(k, v) \<in> set (store w'). nextRunReturns v)"
  using assms
proof (induction ss arbitrary: c t w)
  case Nil
  then show ?case by simp
next
  case (Cons s ss)
  from Cons.prems(1) obtain r1 w1 where p: "processSchedule currentTime s w = Some (r1, w1)"
    by (cases "processSchedule currentTime s w") auto
  from processSchedule_store [OF p] have rw: "rewritten s (store w) (store w1)" by simp
  from Cons.prems(4) have s: "nextRunReturns s" and rest: "\<forall>x \<in> set ss. nextRunReturns x"
    by simp_all
  note inv1 = rewritten_wf_store [OF rw Cons.prems(2)] rewritten_returns [OF rw s Cons.prems(3)]
  show ?case
  proof (cases r1)
    case (Inl err)
    with Cons.prems(1) p have "w' = w1" by simp
    with inv1 show ?thesis by simp
  next
    case (Inr t1)
    with Cons.prems(1) p
    have "checkSchedules currentTime ss (Suc c) (if t1 then Suc t else t) w1 = Some (r, w')"
      by simp
    from Cons.IH [OF this inv1 rest] show ?thesis .
  qed
qed

lemma cleanupLoop_oracles:
  "cleanupLoop tda ss n w = (r, w') \<Longrightarrow>
   fault w' = fault w \<and> clock w' = clock w \<and> reads w' = reads w"
proof (induction ss arbitrary: n w)
  case Nil
  then show ?case by auto
next
  case (Cons s ss)
  then show ?case
    by (auto simp add: state_delete_def logger_info_def Let_def
          split: if_splits option.splits prod.splits sum.splits)
qed

lemma cleanupOldSchedules_oracles:
  "fault (cleanupOldSchedules w) = fault w \<and> clock (cleanupOldSchedules w) = clock w"
proof -
  have "fault w' = fault w" "clock w' = clock w"
    if "cleanupLoop tda ss 0 (w\<lparr>calls := Suc (calls w), reads := Suc (reads w)\<rparr>) = (r, w')"
    for tda ss r w'
    using cleanupLoop_oracles [OF that] by simp_all
  then show ?thesis
    by (auto simp add: cleanupOldSchedules_def state_getGroup_def new_Date_def logger_warn_def
          logger_info_def Let_def split: option.splits prod.splits sum.splits)
qed

text \<open>
  One poll, for a due record of a valid type and config in a fault-free world: the
  handler returns, the record is stored advanced, and what the next poll needs still
  holds.
\<close>

lemma handler_poll:
  assumes "noFaults w" "wf_store (store w)"
    and "\<forall>(k', v) \<in> set (store w). nextRunReturns v"
    and "\<forall>n. 0 \<le> clock w n \<and> clock w n \<le> clock w (Suc n)"
    and "map_of (store w) k = Some s" "isDue (clock w (reads w)) s"
    and "scheduleType s \<in> set scheduleTypes" "valid_config (config s)"
    and "- (2 ^ 53) \<le> countOf s" "countOf s < 2 ^ 53"
  shows "\<exists>w' r. handler w = Some w' \<and> noFaults w' \<and> wf_store (store w') \<and>
           (\<forall>(k', v) \<in> set (store w'). nextRunReturns v) \<and> clock w' = clock w \<and>
           clock w (reads w) < r \<and>
           map_of (store w') k =
             Some (s\<lparr>lastRun := Some (Num (clock w (reads w))), nextRun := Num r,
                      executionCount := Some (countOf s + 1),
                      updatedAt := Some (Num (clock w (reads w)))\<rparr>)"
proof -
  define ct where "ct = clock w (reads w)"
  define ss where "ss = map snd (store w)"
  define w3 where "w3 = logger_info ''Found N schedules to check'' [int (length (store w))]
     (w\<lparr>logs := logs w @ [LogInfo ''Starting schedule check'' []], calls := Suc (calls w),
        reads := Suc (reads w)\<rparr>)"
  have w3: "fault w3 = fault w" "clock w3 = clock w" "reads w3 = Suc (reads w)"
    "store w3 = store w"
    by (simp_all add: w3_def logger_info_def)
  from assms(1) w3(1) have nf3: "noFaults w3" by (simp add: noFaults_def)
  from assms(5) have mem: "(k, s) \<in> set (store w)" by (rule map_of_SomeD)
  with assms(2) have id: "scheduleId s = k" by (auto simp add: wf_store_def)
  from mem have s_in: "s \<in> set ss" by (force simp add: ss_def)
  from mem have ne: "store w \<noteq> []" by auto
  from assms(3) have rets: "\<forall>x \<in> set ss. nextRunReturns x" by (auto simp add: ss_def)
  have dist: "distinct (map scheduleId ss)"
    unfolding ss_def using assms(2) by (rule wf_store_distinct_ids)
  from checkSchedules_isolated [OF nf3 rets dist, of ct 0 0]
  obtain t' w4 where run: "checkSchedules ct ss 0 0 w3 = Some (Inr (0 + length ss, t'), w4)"
    and w4: "fault w4 = fault w3" "clock w4 = clock w3"
    and each: "\<And>x. x \<in> set ss \<Longrightarrow> \<exists>w1 r w2.
              fault w1 = fault w3 \<and> clock w1 = clock w3 \<and> reads w3 \<le> reads w1 \<and>
              processSchedule ct x w1 = Some (r, w2) \<and>
              map_of (store w4) (scheduleId x) = map_of (store w2) (scheduleId x)"
    by blast
  from each [OF s_in] obtain w1 r1 w2 where w1: "fault w1 = fault w3" "clock w1 = clock w3"
    "reads w3 \<le> reads w1" "processSchedule ct s w1 = Some (r1, w2)"
    "map_of (store w4) k = map_of (store w2) k"
    unfolding id by blast
  from assms(1) w1(1) w3(1) have nf1: "noFaults w1" by (simp add: noFaults_def)
  have mono: "clock w m \<le> clock w n" if "m \<le> n" for m n
  proof (rule lift_Suc_mono_le [OF _ that])
    fix i show "clock w i \<le> clock w (Suc i)" using assms(4) by blast
  qed
  from w1(3) w3(3) have "reads w \<le> reads w1" by simp
  from mono [OF this] have later: "ct \<le> clock w1 (reads w1)"
    by (simp add: ct_def w1(2) w3(2))
  from assms(4) have nonneg: "0 \<le> clock w1 (reads w1)" by (simp add: w1(2) w3(2))
  from assms(6) have due: "isDue ct s" by (simp add: ct_def)
  from processSchedule_dispatch [OF nf1 due assms(7,8) nonneg assms(9,10)]
  obtain r w2' where d: "processSchedule ct s w1 = Some (Inr True, w2')"
    "clock w1 (reads w1) < r"
    "store w2' = AList.update (scheduleId s)
       (s\<lparr>lastRun := Some (Num ct), nextRun := Num r,
           executionCount := Some (countOf s + 1), updatedAt := Some (Num ct)\<rparr>) (store w1)"
    by blast
  define s1 where "s1 = s\<lparr>lastRun := Some (Num ct), nextRun := Num r,
           executionCount := Some (countOf s + 1), updatedAt := Some (Num ct)\<rparr>"
  from d(1) w1(4) have "w2 = w2'" by simp
  with d(3) w1(5) have at4: "map_of (store w4) k = Some s1"
    by (simp add: AList.update_conv' id s1_def)
  from later d(2) have r: "ct < r" by simp
  define w5 where "w5 = logger_info ''Schedule check completed''
     [int (length (store w)), int t'] w4"
  have w5: "fault w5 = fault w" "clock w5 = clock w" "store w5 = store w4"
    by (simp_all add: w5_def logger_info_def w4 w3)
  have h: "handler w = Some (cleanupOldSchedules w5)"
    using ne assms(1) run
    by (simp add: handler_def state_getGroup_def new_Date_def logger_info_def noFaults_def
          w3_def w5_def ss_def ct_def Let_def)
  from assms(2,3) w3(4) have "wf_store (store w3)" "\<forall>(k', v) \<in> set (store w3). nextRunReturns v"
    by simp_all
  from checkSchedules_inv [OF run this rets]
  have inv5: "wf_store (store w5)" "\<forall>(k', v) \<in> set (store w5). nextRunReturns v"
    by (simp_all add: w5(3))
  from assms(1) w5(1) have nf5: "noFaults w5" by (simp add: noFaults_def)
  define keep where "keep = (\<lambda>(k' :: string) v. \<not> prunable (clock w5 (reads w5)) v)"
  from cleanupOldSchedules_noFaults [OF inv5(1) nf5]
  have st: "store (cleanupOldSchedules w5) = filter (\<lambda>(k', v). keep k' v) (store w5)"
    by (simp add: keep_def)
  from assms(6) have "status s1 = ''active''" by (simp add: isDue_def s1_def)
  then have "keep k s1" by (simp add: keep_def prunable_def)
  with at4 have at': "map_of (store (cleanupOldSchedules w5)) k = Some s1"
    unfolding st w5(3) [symmetric] by (intro map_of_filter_in) simp_all
  from inv5 have inv': "wf_store (store (cleanupOldSchedules w5))"
    "\<forall>(k', v) \<in> set (store (cleanupOldSchedules w5)). nextRunReturns v"
    unfolding st by (auto simp add: wf_store_def distinct_map_filter)
  from cleanupOldSchedules_oracles [of w5] w5(1,2) assms(1)
  have o': "noFaults (cleanupOldSchedules w5)" "clock (cleanupOldSchedules w5) = clock w"
    by (simp_all add: noFaults_def)
  from h o' inv' at' r show ?thesis
    unfolding s1_def ct_def
    by (intro exI [of _ "cleanupOldSchedules w5"] exI [of _ r]) simp
qed

section \<open>Claims about the checker\<close>

text \<open>
  C2 as stated fails. Two due records \<open>a\<close> and \<open>b\<close>, and a state store that rejects every
  write while reads and emits succeed: for \<open>a\<close> the event is emitted, the write of the
  advanced record throws, the \<open>catch\<close> block's own write throws as well, and that error
  leaves the loop. The poll ends with \<open>b\<close> never dispatched and \<open>a\<close> not marked failed.
\<close>

theorem quarantine_write_failure_aborts_batch:
  "isDue (clock (example_world two_due_store writes_fail) 0) (snd (two_due_store ! 1)) \<and>
   map_option (\<lambda>w'. (emitted w', writes w', map (\<lambda>(k, v). (k, status v)) (store w'), last (logs w')))
     (handler (example_world two_due_store writes_fail)) =
   Some ([triggerOf (snd (two_due_store ! 0))], [], [(''a'', ''active''), (''b'', ''active'')],
         LogError ''Schedule checker failed'' ''state store unavailable'')"
  by code_simp

text \<open>
  C2, amended. In a world where the write made by the \<open>catch\<close> block does not fail and
  the next-run computation of every due record returns: the iteration for a record \<open>s\<close>
  completes without an error leaving it. When its \<open>try\<close> block has thrown, the store
  changes at the key of \<open>s\<close> only: the record (as the block left it) is written there
  with status \<open>failed\<close>, \<open>lastError\<close> the message and \<open>updatedAt\<close> the clock reading taken
  in the \<open>catch\<close> block; the \<open>catch\<close> block emits nothing and logs the error. When the
  \<open>try\<close> block has not thrown, nothing is added to what it did. Either way the loop goes
  on with the remaining records, and it ends having checked every record of the batch.
\<close>

theorem failure_isolated_per_record:
  assumes "quarantineOK w"
    and "\<forall>x \<in> set (s # ss). isDue currentTime x \<longrightarrow> nextRunReturns x"
  shows "\<exists>r w1 t' w'.
           processSchedule currentTime s w = Some (Inr r, w1) \<and> quarantineOK w1 \<and>
           (case trySchedule currentTime s w of
              None \<Rightarrow> False
            | Some (Inr r0, w0) \<Rightarrow> r = r0 \<and> w1 = w0
            | Some (Inl (err, s'), w0) \<Rightarrow>
                r = False \<and> scheduleId s' = scheduleId s \<and>
                store w1 =
                  AList.update (scheduleId s)
                    (s'\<lparr>status := ''failed'', lastError := Some err,
                        updatedAt := Some (Num (clock w0 (reads w0)))\<rparr>) (store w) \<and>
                writes w1 = writes w @
                  [(scheduleId s,
                    s'\<lparr>status := ''failed'', lastError := Some err,
                        updatedAt := Some (Num (clock w0 (reads w0)))\<rparr>)] \<and>
                emitted w1 = emitted w0 \<and>
                logs w1 = logs w0 @ [LogError ''Error processing schedule'' err]) \<and>
           checkSchedules currentTime (s # ss) c t w =
             checkSchedules currentTime ss (Suc c) (if r then Suc t else t) w1 \<and>
           checkSchedules currentTime (s # ss) c t w = Some (Inr (c + length (s # ss), t'), w')"
proof -
  from assms(2) have s: "isDue currentTime s \<longrightarrow> nextRunReturns s" by simp
  from processSchedule_quarantine [OF assms(1) s]
  obtain r w1 where p: "processSchedule currentTime s w = Some (Inr r, w1)" "quarantineOK w1"
    and q: "(case trySchedule currentTime s w of
              None \<Rightarrow> False
            | Some (Inr r0, w0) \<Rightarrow> r = r0 \<and> w1 = w0
            | Some (Inl (err, s'), w0) \<Rightarrow>
                r = False \<and> scheduleId s' = scheduleId s \<and>
                store w1 =
                  AList.update (scheduleId s)
                    (s'\<lparr>status := ''failed'', lastError := Some err,
                        updatedAt := Some (Num (clock w0 (reads w0)))\<rparr>) (store w0) \<and>
                writes w1 = writes w0 @
                  [(scheduleId s,
                    s'\<lparr>status := ''failed'', lastError := Some err,
                        updatedAt := Some (Num (clock w0 (reads w0)))\<rparr>)] \<and>
                emitted w1 = emitted w0 \<and>
                logs w1 = logs w0 @ [LogError ''Error processing schedule'' err])"
    by blast
  have q': "(case trySchedule currentTime s w of
              None \<Rightarrow> False
            | Some (Inr r0, w0) \<Rightarrow> r = r0 \<and> w1 = w0
            | Some (Inl (err, s'), w0) \<Rightarrow>
                r = False \<and> scheduleId s' = scheduleId s \<and>
                store w1 =
                  AList.update (scheduleId s)
                    (s'\<lparr>status := ''failed'', lastError := Some err,
                        updatedAt := Some (Num (clock w0 (reads w0)))\<rparr>) (store w) \<and>
                writes w1 = writes w @
                  [(scheduleId s,
                    s'\<lparr>status := ''failed'', lastError := Some err,
                        updatedAt := Some (Num (clock w0 (reads w0)))\<rparr>)] \<and>
                emitted w1 = emitted w0 \<and>
                logs w1 = logs w0 @ [LogError ''Error processing schedule'' err])"
  proof (cases "trySchedule currentTime s w")
    case None
    with q show ?thesis by simp
  next
    case (Some a)
    obtain res w0 where a: "a = (res, w0)" by (cases a)
    show ?thesis
    proof (cases res)
      case (Inr r0)
      with q Some a show ?thesis by simp
    next
      case (Inl e)
      obtain err s' where e: "e = (err, s')" by (cases e)
      from Some a Inl e have "trySchedule currentTime s w = Some (Inl (err, s'), w0)" by simp
      from trySchedule_throws_store [OF this] q Some a Inl e show ?thesis by simp
    qed
  qed
  from checkSchedules_quarantine [OF assms, of c t]
  obtain t' w' where all: "checkSchedules currentTime (s # ss) c t w =
      Some (Inr (c + length (s # ss), t'), w')" by blast
  have step: "checkSchedules currentTime (s # ss) c t w =
      checkSchedules currentTime ss (Suc c) (if r then Suc t else t) w1"
    using p(1) by simp
  from p q' all step show ?thesis by blast
qed

theorem failure_isolated_per_record_witness:
  "quarantineOK (example_world example_store (\<lambda>n c. None)) \<and>
   list_all nextRunReturns [snd (example_store ! 2), snd (example_store ! 3)] \<and>
   map_option (\<lambda>(r, w1). (r, emitted w1,
                 map (\<lambda>(k, v). (k, status v, lastError v, updatedAt v)) (store w1)))
     (processSchedule 1704101400000 (snd (example_store ! 2))
        (example_world example_store (\<lambda>n c. None))) =
   Some (Inr False, [triggerOf (snd (example_store ! 2))],
         [(''a'', ''active'', None, Some (Num 1703000000000)),
          (''b'', ''active'', None, Some (Num 1703000000000)),
          (''c'', ''failed'', Some ''Unsupported schedule type: yearly'', Some (Num 1704101401000)),
          (''d'', ''paused'', None, Some (Num 1703000000000))]) \<and>
   (\<exists>r w1 t' w'.
      processSchedule 1704101400000 (snd (example_store ! 2))
        (example_world example_store (\<lambda>n c. None)) = Some (Inr r, w1) \<and>
      checkSchedules 1704101400000 [snd (example_store ! 2), snd (example_store ! 3)] 0 0
        (example_world example_store (\<lambda>n c. None)) = Some (Inr (2, t'), w'))"
proof -
  let ?w = "example_world example_store (\<lambda>n c. None)"
  let ?c = "snd (example_store ! 2)"
  let ?d = "snd (example_store ! 3)"
  have h1: "quarantineOK ?w" by (simp add: quarantineOK_def example_world_def)
  have h2: "list_all nextRunReturns [?c, ?d]" by code_simp
  then have h2': "\<forall>x \<in> set (?c # [?d]). isDue 1704101400000 x \<longrightarrow> nextRunReturns x" by simp
  have e: "map_option (\<lambda>(r, w1). (r, emitted w1,
                 map (\<lambda>(k, v). (k, status v, lastError v, updatedAt v)) (store w1)))
     (processSchedule 1704101400000 ?c ?w) =
   Some (Inr False, [triggerOf ?c],
         [(''a'', ''active'', None, Some (Num 1703000000000)),
          (''b'', ''active'', None, Some (Num 1703000000000)),
          (''c'', ''failed'', Some ''Unsupported schedule type: yearly'', Some (Num 1704101401000)),
          (''d'', ''paused'', None, Some (Num 1703000000000))])"
    by code_simp
  from failure_isolated_per_record [OF h1 h2', of 0 0]
  have "\<exists>r w1 t' w'.
      processSchedule 1704101400000 ?c ?w = Some (Inr r, w1) \<and>
      checkSchedules 1704101400000 [?c, ?d] 0 0 ?w = Some (Inr (2, t'), w')"
    by auto
  with h1 h2 e show ?thesis by blast
qed



text \<open>
  C5. \<open>N\<close> successive polls of the handler in a world where no collaborator call
  fails, the clock never reads before 1970 nor goes back, and the store holds one
  record per key, each under its own id, with next-run computations that return. For
  a record of a valid type and config that is stored under \<open>k\<close> and is due at each
  of the \<open>N\<close> polls: every poll returns and leaves under \<open>k\<close> a record whose \<open>lastRun\<close>
  and \<open>updatedAt\<close> are that poll's \<open>currentTime\<close>, whose \<open>executionCount\<close> is one
  more than in the record stored before and whose \<open>nextRun\<close> is strictly later than
  the one stored before; after the \<open>N\<close> polls the count has grown by exactly \<open>N\<close>.
  The count is a double: the theorem covers the counts up to 2^53, where its
  increment is exact (at 2^53 itself \<open>js_plus_one\<close> leaves it unchanged).
\<close>

theorem executionCount_and_nextRun_advance:
  assumes "noFaults w" "wf_store (store w)"
    and "\<forall>(k', v) \<in> set (store w). nextRunReturns v"
    and "\<forall>n. 0 \<le> clock w n \<and> clock w n \<le> clock w (Suc n)"
    and "map_of (store w) k = Some s"
    and "scheduleType s \<in> set scheduleTypes" "valid_config (config s)"
    and "- (2 ^ 53) \<le> countOf s" "countOf s + int N \<le> 2 ^ 53"
    and "dueAtPolls k N w"
  shows "\<exists>ps. storedAfterPolls k N w = Some ps \<and> length ps = N \<and>
           successively
             (\<lambda>a b. executionCount b = Some (countOf a + 1) \<and> js_lt (nextRun a) (nextRun b))
             (s # map snd ps) \<and>
           list_all (\<lambda>(currentTime, b).
                       lastRun b = Some (Num currentTime) \<and> updatedAt b = Some (Num currentTime))
             ps \<and>
           countOf (last (s # map snd ps)) = countOf s + int N"
  using assms
proof (induction N arbitrary: w s)
  case 0
  then show ?case by simp
next
  case (Suc N)
  define ct where "ct = clock w (reads w)"
  from Suc.prems(10) Suc.prems(5) have due: "isDue ct s"
    and later: "\<And>w'. handler w = Some w' \<Longrightarrow> dueAtPolls k N w'"
    by (auto simp add: ct_def split: option.splits)
  from Suc.prems(9) have below: "countOf s < 2 ^ 53" by simp
  from handler_poll [OF Suc.prems(1-5) due [unfolded ct_def] Suc.prems(6-8) below]
  obtain w' r where h: "handler w = Some w'" and inv: "noFaults w'" "wf_store (store w')"
    "\<forall>(k', v) \<in> set (store w'). nextRunReturns v" and c: "clock w' = clock w" and r: "ct < r"
    and at: "map_of (store w') k =
       Some (s\<lparr>lastRun := Some (Num ct), nextRun := Num r,
                executionCount := Some (countOf s + 1), updatedAt := Some (Num ct)\<rparr>)"
    unfolding ct_def by blast
  define s1 where "s1 = s\<lparr>lastRun := Some (Num ct), nextRun := Num r,
                executionCount := Some (countOf s + 1), updatedAt := Some (Num ct)\<rparr>"
  from due obtain n0 where n0: "nextRun s = Num n0" "n0 \<le> ct"
    by (cases "nextRun s") (simp_all add: isDue_def)
  have adv: "executionCount s1 = Some (countOf s + 1)" "js_lt (nextRun s) (nextRun s1)"
    "lastRun s1 = Some (Num ct)" "updatedAt s1 = Some (Num ct)" "countOf s1 = countOf s + 1"
    using n0 r by (simp_all add: s1_def countOf_def)
  have same: "scheduleType s1 \<in> set scheduleTypes" "valid_config (config s1)"
    using Suc.prems(6,7) by (simp_all add: s1_def)
  from Suc.prems(4) c have clk: "\<forall>n. 0 \<le> clock w' n \<and> clock w' n \<le> clock w' (Suc n)" by simp
  from Suc.prems(8,9) adv(5) have range: "- (2 ^ 53) \<le> countOf s1" "countOf s1 + int N \<le> 2 ^ 53"
    by simp_all
  from Suc.IH [OF inv clk at [folded s1_def] same range later [OF h]]
  obtain ps where ps: "storedAfterPolls k N w' = Some ps" "length ps = N"
    "successively
       (\<lambda>a b. executionCount b = Some (countOf a + 1) \<and> js_lt (nextRun a) (nextRun b))
       (s1 # map snd ps)"
    "list_all (\<lambda>(currentTime, b).
                 lastRun b = Some (Num currentTime) \<and> updatedAt b = Some (Num currentTime)) ps"
    "countOf (last (s1 # map snd ps)) = countOf s1 + int N"
    by blast
  have "storedAfterPolls k (Suc N) w = Some ((ct, s1) # ps)"
    using h at ps(1) by (simp add: s1_def ct_def)
  with ps adv show ?case
    by (intro exI [of _ "(ct, s1) # ps"]) simp
qed

theorem executionCount_and_nextRun_advance_witness:
  "noFaults (daily_clock_world polls_store) \<and>
   wf_store (store (daily_clock_world polls_store)) \<and>
   list_all (\<lambda>(k, v). nextRunReturns v) (store (daily_clock_world polls_store)) \<and>
   (\<forall>n. 0 \<le> clock (daily_clock_world polls_store) n \<and>
        clock (daily_clock_world polls_store) n \<le> clock (daily_clock_world polls_store) (Suc n)) \<and>
   map_of (store (daily_clock_world polls_store)) ''a'' = Some (snd (polls_store ! 0)) \<and>
   scheduleType (snd (polls_store ! 0)) \<in> set scheduleTypes \<and>
   valid_config (config (snd (polls_store ! 0))) \<and>
   - (2 ^ 53) \<le> countOf (snd (polls_store ! 0)) \<and>
   countOf (snd (polls_store ! 0)) + int 3 \<le> 2 ^ 53 \<and>
   dueAtPolls ''a'' 3 (daily_clock_world polls_store) \<and>
   map_option (map (\<lambda>(currentTime, b). (currentTime, executionCount b, nextRun b, lastRun b)))
     (storedAfterPolls ''a'' 3 (daily_clock_world polls_store)) =
     Some [(1704101400000, Some 1, Num 1704272400000, Some (Num 1704101400000)),
           (1704533400000, Some 2, Num 1704704400000, Some (Num 1704533400000)),
           (1704792600000, Some 3, Num 1704963600000, Some (Num 1704792600000))] \<and>
   (\<exists>ps. storedAfterPolls ''a'' 3 (daily_clock_world polls_store) = Some ps \<and> length ps = 3 \<and>
         countOf (last (snd (polls_store ! 0) # map snd ps)) = 3)"
proof -
  let ?w = "daily_clock_world polls_store"
  let ?s = "snd (polls_store ! 0)"
  have h1: "noFaults ?w" by (simp add: noFaults_def daily_clock_world_def)
  have h2: "wf_store (store ?w)" by code_simp
  have h3: "list_all (\<lambda>(k, v). nextRunReturns v) (store ?w)" by code_simp
  then have h3': "\<forall>(k, v) \<in> set (store ?w). nextRunReturns v" by (simp add: list_all_iff)
  have h4: "\<forall>n. 0 \<le> clock ?w n \<and> clock ?w n \<le> clock ?w (Suc n)"
    by (simp add: daily_clock_world_def)
  have h5: "map_of (store ?w) ''a'' = Some ?s" by code_simp
  have h6: "scheduleType ?s \<in> set scheduleTypes" by code_simp
  have h7: "valid_config (config ?s)" by code_simp
  have c0: "countOf ?s = 0" by code_simp
  have h8: "- (2 ^ 53) \<le> countOf ?s" "countOf ?s + int 3 \<le> 2 ^ 53" by (simp_all add: c0)
  have h10: "dueAtPolls ''a'' 3 ?w" by code_simp
  have e: "map_option (map (\<lambda>(currentTime, b). (currentTime, executionCount b, nextRun b, lastRun b)))
     (storedAfterPolls ''a'' 3 ?w) =
     Some [(1704101400000, Some 1, Num 1704272400000, Some (Num 1704101400000)),
           (1704533400000, Some 2, Num 1704704400000, Some (Num 1704533400000)),
           (1704792600000, Some 3, Num 1704963600000, Some (Num 1704792600000))]"
    by code_simp
  from executionCount_and_nextRun_advance [OF h1 h2 h3' h4 h5 h6 h7 h8 h10] c0
  obtain ps where "storedAfterPolls ''a'' 3 ?w = Some ps" "length ps = 3"
    "countOf (last (?s # map snd ps)) = 3" by auto
  with h1 h2 h3 h4 h5 h6 h7 h8 h10 e show ?thesis by blast
qed

text \<open>
  C6. On a store with one record per key, each under its own id: when no collaborator
  call fails, the pruning pass leaves exactly the records that are not failed-and-older-
  than-thirty-days and deletes exactly the others; whatever fails, a record that is not
  failed-and-older-than-thirty-days stays (in particular every record whose status is
  not \<open>failed\<close>); and the pass always returns, either having pruned completely or with a
  warning as its last log entry. The witness has a failed record 31 days old (deleted),
  one 29 days old (kept), an active and a paused one (kept).
\<close>

theorem pruning_deletes_old_failed:
  assumes "wf_store (store w)"
  shows "(noFaults w \<longrightarrow>
            store (cleanupOldSchedules w) =
              filter (\<lambda>(k, v). \<not> prunable (clock w (reads w)) v) (store w) \<and>
            deletes (cleanupOldSchedules w) =
              deletes w @ map fst (filter (\<lambda>(k, v). prunable (clock w (reads w)) v) (store w))) \<and>
         (\<forall>(k, v) \<in> set (store w).
            \<not> prunable (clock w (reads w)) v \<longrightarrow> (k, v) \<in> set (store (cleanupOldSchedules w))) \<and>
         (\<forall>(k, v) \<in> set (store w).
            status v \<noteq> ''failed'' \<longrightarrow> (k, v) \<in> set (store (cleanupOldSchedules w))) \<and>
         ((store (cleanupOldSchedules w) =
             filter (\<lambda>(k, v). \<not> prunable (clock w (reads w)) v) (store w) \<and>
           deletes (cleanupOldSchedules w) =
             deletes w @ map fst (filter (\<lambda>(k, v). prunable (clock w (reads w)) v) (store w))) \<or>
          (\<exists>err. last (logs (cleanupOldSchedules w)) = LogWarn ''Error during cleanup'' err))"
proof (intro conjI impI ballI)
  assume "noFaults w"
  with assms show "store (cleanupOldSchedules w) =
      filter (\<lambda>(k, v). \<not> prunable (clock w (reads w)) v) (store w)"
    and "deletes (cleanupOldSchedules w) =
      deletes w @ map fst (filter (\<lambda>(k, v). prunable (clock w (reads w)) v) (store w))"
    by (simp_all add: cleanupOldSchedules_noFaults)
next
  fix x assume x: "x \<in> set (store w)"
  obtain k v where kv: "x = (k, v)" by (cases x)
  from x kv cleanupOldSchedules_keeps [OF assms, of k v]
  show "case x of (k, v) \<Rightarrow>
      \<not> prunable (clock w (reads w)) v \<longrightarrow> (k, v) \<in> set (store (cleanupOldSchedules w))"
    by simp
  have "\<not> prunable (clock w (reads w)) v" if "status v \<noteq> ''failed''"
    using that by (simp add: prunable_def)
  with x kv cleanupOldSchedules_keeps [OF assms, of k v]
  show "case x of (k, v) \<Rightarrow>
      status v \<noteq> ''failed'' \<longrightarrow> (k, v) \<in> set (store (cleanupOldSchedules w))"
    by simp
next
  show "(store (cleanupOldSchedules w) =
             filter (\<lambda>(k, v). \<not> prunable (clock w (reads w)) v) (store w) \<and>
           deletes (cleanupOldSchedules w) =
             deletes w @ map fst (filter (\<lambda>(k, v). prunable (clock w (reads w)) v) (store w))) \<or>
          (\<exists>err. last (logs (cleanupOldSchedules w)) = LogWarn ''Error during cleanup'' err)"
    by (rule cleanupOldSchedules_complete_or_warned [OF assms])
qed

theorem pruning_deletes_old_failed_witness:
  "wf_store (store (example_world pruning_store (\<lambda>n c. None))) \<and>
   noFaults (example_world pruning_store (\<lambda>n c. None)) \<and>
   map (\<lambda>(k, v). prunable (clock (example_world pruning_store (\<lambda>n c. None)) 0) v) pruning_store =
     [True, False, False, False] \<and>
   map fst (store (cleanupOldSchedules (example_world pruning_store (\<lambda>n c. None)))) =
     [''f29'', ''a'', ''p''] \<and>
   deletes (cleanupOldSchedules (example_world pruning_store (\<lambda>n c. None))) = [''f31'']"
proof -
  let ?w = "example_world pruning_store (\<lambda>n c. None)"
  have h1: "wf_store (store ?w)" by code_simp
  have h2: "noFaults ?w" by (simp add: noFaults_def example_world_def)
  have r: "reads ?w = 0" "store ?w = pruning_store" "deletes ?w = []"
    by (simp_all add: example_world_def)
  have p: "map (\<lambda>(k, v). prunable (clock ?w 0) v) pruning_store = [True, False, False, False]"
    by code_simp
  have f1: "map fst (filter (\<lambda>(k, v). \<not> prunable (clock ?w 0) v) pruning_store) =
      [''f29'', ''a'', ''p'']" by code_simp
  have f2: "map fst (filter (\<lambda>(k, v). prunable (clock ?w 0) v) pruning_store) = [''f31'']"
    by code_simp
  from pruning_deletes_old_failed [OF h1] h2
  have "store (cleanupOldSchedules ?w) = filter (\<lambda>(k, v). \<not> prunable (clock ?w 0) v) pruning_store"
    and "deletes (cleanupOldSchedules ?w) =
      map fst (filter (\<lambda>(k, v). prunable (clock ?w 0) v) pruning_store)"
    unfolding r by simp_all
  with f1 f2 h1 h2 p show ?thesis by simp
qed

text \<open>
  C7. When loading the schedule set fails, the handler logs the error and returns with
  nothing emitted, written or deleted; when the loaded set is empty, it logs that no
  schedules were found and returns, again with nothing emitted, written or deleted.
\<close>

theorem load_failure_aborts_poll:
  "(fault w (calls w) GetGroup = Some err \<longrightarrow>
      (\<exists>w'. handler w = Some w' \<and> emitted w' = emitted w \<and> writes w' = writes w \<and>
            store w' = store w \<and> deletes w' = deletes w \<and>
            logs w' = logs w @ [LogInfo ''Starting schedule check'' [],
                                 LogError ''Schedule checker failed'' err])) \<and>
   (fault w (calls w) GetGroup = None \<and> store w = [] \<longrightarrow>
      (\<exists>w'. handler w = Some w' \<and> emitted w' = emitted w \<and> writes w' = writes w \<and>
            store w' = store w \<and> deletes w' = deletes w \<and>
            logs w' = logs w @ [LogInfo ''Starting schedule check'' [],
                                 LogInfo ''No schedules found'' []]))"
  by (simp add: handler_def state_getGroup_def logger_info_def logger_error_def)

theorem load_failure_aborts_poll_witness:
  "fault (example_world [(''a'', example_schedule ''a'' ''daily'' ''active'' (Num 1704000000000))]
            (\<lambda>n c. case c of GetGroup \<Rightarrow> Some ''storage unreachable'' | _ \<Rightarrow> None)) 0 GetGroup =
     Some ''storage unreachable'' \<and>
   map_option (\<lambda>w'. (emitted w', writes w', logs w'))
     (handler (example_world [(''a'', example_schedule ''a'' ''daily'' ''active'' (Num 1704000000000))]
                 (\<lambda>n c. case c of GetGroup \<Rightarrow> Some ''storage unreachable'' | _ \<Rightarrow> None))) =
     Some ([], [], [LogInfo ''Starting schedule check'' [],
                    LogError ''Schedule checker failed'' ''storage unreachable'']) \<and>
   fault (example_world [] (\<lambda>n c. None)) 0 GetGroup = None \<and>
   store (example_world [] (\<lambda>n c. None)) = [] \<and>
   map_option (\<lambda>w'. (emitted w', writes w', logs w')) (handler (example_world [] (\<lambda>n c. None))) =
     Some ([], [], [LogInfo ''Starting schedule check'' [], LogInfo ''No schedules found'' []])"
  using load_failure_aborts_poll
      [of "example_world [(''a'', example_schedule ''a'' ''daily'' ''active'' (Num 1704000000000))]
            (\<lambda>n c. case c of GetGroup \<Rightarrow> Some ''storage unreachable'' | _ \<Rightarrow> None)"
          "''storage unreachable''"]
    load_failure_aborts_poll [of "example_world [] (\<lambda>n c. None)"]
  by (auto simp add: example_world_def)

text \<open>
  C10. An active record whose \<open>nextRun\<close> does not parse (an Invalid Date) is treated as
  not due: its loop iteration completes with nothing emitted, nothing written and no
  failure marked (the world changes by two info log entries only), and the pruning loop
  passes over it.
\<close>

theorem unparseable_nextRun_is_skipped:
  assumes "status s = ''active''" "nextRun s = NaN"
  shows "processSchedule currentTime s w =
           Some (Inr False, w\<lparr>logs := logs w @ [LogInfo ''Checking schedule'' [],
                                                 LogInfo ''Schedule not due yet'' []]\<rparr>) \<and>
         cleanupLoop thirtyDaysAgo (s # ss) cleaned w' = cleanupLoop thirtyDaysAgo ss cleaned w'"
  using assms by (simp add: processSchedule_def trySchedule_def logger_info_def)

theorem unparseable_nextRun_is_skipped_witness:
  "status (example_schedule ''a'' ''daily'' ''active'' NaN) = ''active'' \<and>
   nextRun (example_schedule ''a'' ''daily'' ''active'' NaN) = NaN \<and>
   processSchedule 1704101400000 (example_schedule ''a'' ''daily'' ''active'' NaN)
     (example_world [(''a'', example_schedule ''a'' ''daily'' ''active'' NaN)] (\<lambda>n c. None)) =
   Some (Inr False,
         (example_world [(''a'', example_schedule ''a'' ''daily'' ''active'' NaN)] (\<lambda>n c. None))
           \<lparr>logs := [LogInfo ''Checking schedule'' [], LogInfo ''Schedule not due yet'' []]\<rparr>)"
  using unparseable_nextRun_is_skipped
      [of "example_schedule ''a'' ''daily'' ''active'' NaN" 1704101400000
          "example_world [(''a'', example_schedule ''a'' ''daily'' ''active'' NaN)] (\<lambda>n c. None)"]
  by (simp add: example_schedule_def example_world_def)

end
